theory Spec2Isabelle
  imports Main
begin

section \<open>Strings\<close>

text \<open>
  A JavaScript string is a sequence of UTF-16 code units; a code unit is modelled as a
  natural number. \<open>js\<close> turns an ASCII literal into such a sequence.
\<close>

type_synonym jsstring = "nat list"

definition js :: "string \<Rightarrow> jsstring" where
  "js s = map of_char s"

text \<open>
  \<^verbatim>\<open>String.prototype.trim\<close> removes, from both ends, the code units of ECMAScript's
  WhiteSpace and LineTerminator productions: TAB, LF, VT, FF, CR, SP, NBSP, U+1680,
  U+2000..U+200A, U+2028, U+2029, U+202F, U+205F, U+3000 and U+FEFF.
\<close>

definition is_ws :: "nat \<Rightarrow> bool" where
  "is_ws c = (c \<in> set [9, 10, 11, 12, 13, 32, 160, 5760, 8232, 8233, 8239, 8287, 12288, 65279]
              \<or> (8192 \<le> c \<and> c \<le> 8202))"

definition trim :: "jsstring \<Rightarrow> jsstring" where
  "trim s = rev (dropWhile is_ws (rev (dropWhile is_ws s)))"

section \<open>Data model\<close>

datatype role = User | Assistant

record meta =
  meta_model :: "jsstring option"
  meta_usage :: "(nat \<times> nat \<times> nat) option"

text \<open>
  A history entry. A field that the JavaScript object may lack is an \<open>option\<close>
  (\<open>branch_of\<close>, \<open>branch_version\<close>, \<open>edited_from\<close>, \<open>time\<close>, \<open>meta\<close>); the flags
  \<open>deleted\<close>, \<open>editing\<close>, \<open>edited\<close> are read through \<^verbatim>\<open>!!\<close> and \<open>attachCount\<close> through
  \<^verbatim>\<open>|| 0\<close>, so an absent one is \<open>False\<close> or \<open>0\<close>.
\<close>

record message =
  role :: role
  content :: jsstring
  meta :: "meta option"
  time :: "nat option"
  deleted :: bool
  editing :: bool
  edited :: bool
  edited_from :: "nat option"
  branch_of :: "nat option"
  branch_version :: "int option"
  attachCount :: nat

text \<open>The branch state \<^verbatim>\<open>{ anchor, active, total }\<close> of a chat.\<close>

record branch =
  anchor :: nat
  active :: int
  total_b :: int

record stats =
  in_tokens :: nat
  out_tokens :: nat
  total_tokens :: nat

record chat =
  cid :: jsstring
  name :: jsstring
  model :: jsstring
  history :: "message list"
  stats :: "stats option"
  branch :: "branch option"

section \<open>Local storage for chats\<close>

text \<open>
  The record under \<^verbatim>\<open>LS_KEY\<close>: \<open>None\<close> when the key is absent or does not parse, in
  which case \<^verbatim>\<open>loadAll\<close> yields the empty list.
\<close>

type_synonym storage = "chat list option"

definition DEFAULT_STATS :: stats where
  "DEFAULT_STATS = \<lparr>in_tokens = 0, out_tokens = 0, total_tokens = 0\<rparr>"

definition loadAll :: "storage \<Rightarrow> chat list" where
  "loadAll st = (case st of None \<Rightarrow> [] | Some x \<Rightarrow> x)"

definition saveAll :: "chat list \<Rightarrow> storage" where
  "saveAll x = Some x"

text \<open>
  \<^verbatim>\<open>Array.prototype.findIndex\<close> with a callback of the element and its index; the
  result \<^verbatim>\<open>-1\<close> is \<open>None\<close>.
\<close>

fun findIndex_from :: "('a \<Rightarrow> nat \<Rightarrow> bool) \<Rightarrow> nat \<Rightarrow> 'a list \<Rightarrow> nat option" where
  "findIndex_from p j [] = None"
| "findIndex_from p j (x # xs) = (if p x j then Some j else findIndex_from p (Suc j) xs)"

definition findIndex :: "('a \<Rightarrow> nat \<Rightarrow> bool) \<Rightarrow> 'a list \<Rightarrow> nat option" where
  "findIndex p xs = findIndex_from p 0 xs"

text \<open>
  \<^verbatim>\<open>const updateChat = ch => { const all = loadAll();
     const i = all.findIndex(x => x.id === ch.id); if (i>=0){ all[i] = ch; saveAll(all); } };\<close>
\<close>

definition updateChat :: "chat \<Rightarrow> storage \<Rightarrow> storage" where
  "updateChat ch st =
     (let all = loadAll st in
      case findIndex (\<lambda>x _. cid x = cid ch) all of
        Some i \<Rightarrow> saveAll (all[i := ch])
      | None \<Rightarrow> st)"

text \<open>
  \<^verbatim>\<open>createChat\<close>: the identity is \<^verbatim>\<open>"c_" + Date.now()\<close>; the clock reading is the
  parameter \<open>now\<close>, the selected model (\<^verbatim>\<open>modelSel?.value || "grok"\<close>) the parameter
  \<open>mdl\<close>. The new chat goes to the head of the list.
\<close>

function decimal :: "nat \<Rightarrow> jsstring" where
  "decimal n = (if n < 10 then [48 + n] else decimal (n div 10) @ [48 + n mod 10])"
  by pat_completeness auto
termination
  by (relation "measure (\<lambda>n. n)") auto

declare decimal.simps [simp del]

definition createChat :: "nat \<Rightarrow> jsstring \<Rightarrow> jsstring \<Rightarrow> storage \<Rightarrow> chat \<times> storage" where
  "createChat now mdl nm st =
     (let c = \<lparr>cid = js ''c_'' @ decimal now, name = nm, model = mdl, history = [],
                stats = Some DEFAULT_STATS, branch = None\<rparr>
      in (c, saveAll (c # loadAll st)))"

text \<open>
  \<^verbatim>\<open>getChat\<close> looks the chat up and, when it has no \<^verbatim>\<open>stats\<close>, fills them in and
  writes the chat back. The identity is \<open>None\<close> when \<^verbatim>\<open>currentId\<close> is \<^verbatim>\<open>null\<close>.
\<close>

definition getChat :: "jsstring option \<Rightarrow> storage \<Rightarrow> chat option \<times> storage" where
  "getChat i st =
     (case i of
        None \<Rightarrow> (None, st)
      | Some k \<Rightarrow>
          (case find (\<lambda>c. cid c = k) (loadAll st) of
             None \<Rightarrow> (None, st)
           | Some ch \<Rightarrow>
               if stats ch = None
               then (let ch' = ch\<lparr>stats := Some DEFAULT_STATS\<rparr> in (Some ch', updateChat ch' st))
               else (Some ch, st)))"

section \<open>Branch state: cycling and saving an edit\<close>

text \<open>
  The remainder operator \<^verbatim>\<open>%\<close> on integers truncates toward zero: the result has the
  sign of the dividend. With a zero divisor JavaScript yields \<^verbatim>\<open>NaN\<close>, which \<open>int\<close>
  does not hold; every statement about \<open>cycle\<close> below is for a nonzero \<open>total\<close>.
\<close>

definition js_rem :: "int \<Rightarrow> int \<Rightarrow> int" where
  "js_rem a b = sgn a * (\<bar>a\<bar> mod \<bar>b\<bar>)"

text \<open>\<^verbatim>\<open>br.active = (br.active % br.total) + 1;\<close>\<close>

definition cycle :: "branch \<Rightarrow> branch" where
  "cycle br = br\<lparr>active := js_rem (active br) (total_b br) + 1\<rparr>"

text \<open>
  The version pager's click handler on the current chat: nothing without a branch state,
  otherwise the cycled state is written back through \<open>updateChat\<close>.
\<close>

definition pager_click :: "jsstring option \<Rightarrow> storage \<Rightarrow> storage" where
  "pager_click cur st =
     (case getChat cur st of
        (None, st1) \<Rightarrow> st1
      | (Some c, st1) \<Rightarrow>
          (case branch c of
             None \<Rightarrow> st1
           | Some br \<Rightarrow> updateChat (c\<lparr>branch := Some (cycle br)\<rparr>) st1))"

text \<open>
  The save action of the click handler, statement by statement. The true anchor:
  \<^verbatim>\<open>const anchor = (typeof item.branch_of === "number") ? item.branch_of : idx;\<close>
\<close>

definition true_anchor :: "nat \<Rightarrow> message \<Rightarrow> nat" where
  "true_anchor idx item = (case branch_of item of Some a \<Rightarrow> a | None \<Rightarrow> idx)"

text \<open>
  \<^verbatim>\<open>if (!chat.branch || chat.branch.anchor !== anchor) {
       chat.branch = { anchor, active: 2, total: 2 };
     } else {
       chat.branch.total = (chat.branch.total || 1) + 1;
       chat.branch.active = chat.branch.total;
     }\<close>
\<close>

definition bump_branch :: "nat \<Rightarrow> branch option \<Rightarrow> branch" where
  "bump_branch a b =
     (case b of
        None \<Rightarrow> \<lparr>anchor = a, active = 2, total_b = 2\<rparr>
      | Some br \<Rightarrow>
          if anchor br \<noteq> a then \<lparr>anchor = a, active = 2, total_b = 2\<rparr>
          else (let t = (if total_b br = 0 then 1 else total_b br) + 1
                in br\<lparr>total_b := t, active := t\<rparr>))"

text \<open>
  \<^verbatim>\<open>let insertIdx = anchor + 1;
     for (let j = anchor + 1; j < chat.history.length; j++) {
       const t = chat.history[j];
       if (t.branch_of === anchor) insertIdx = j + 1;
       else if (typeof t.branch_of !== "number") break;
     }\<close>
  The loop runs over the entries from \<open>anchor + 1\<close> on: \<open>scan a j ins ts\<close> is the loop at
  index \<open>j\<close> with the entries \<open>ts\<close> still ahead.
\<close>

fun scan :: "nat \<Rightarrow> nat \<Rightarrow> nat \<Rightarrow> message list \<Rightarrow> nat" where
  "scan a j ins [] = ins"
| "scan a j ins (t # ts) =
     (if branch_of t = Some a then scan a (Suc j) (Suc j) ts
      else if branch_of t = None then ins
      else scan a (Suc j) ins ts)"

definition insertIdx :: "nat \<Rightarrow> message list \<Rightarrow> nat" where
  "insertIdx a h = scan a (a + 1) (a + 1) (drop (a + 1) h)"

text \<open>\<^verbatim>\<open>xs.splice(i, 0, x)\<close>: a start beyond the end is clamped to the length.\<close>

definition splice_insert :: "nat \<Rightarrow> 'a \<Rightarrow> 'a list \<Rightarrow> 'a list" where
  "splice_insert i x xs = take i xs @ [x] @ drop i xs"

definition newUser :: "nat \<Rightarrow> jsstring \<Rightarrow> nat \<Rightarrow> int \<Rightarrow> message" where
  "newUser now newText a version =
     \<lparr>role = User, content = newText, meta = None, time = Some now, deleted = False,
      editing = False, edited = True, edited_from = Some a, branch_of = Some a,
      branch_version = Some version, attachCount = 0\<rparr>"

text \<open>
  The whole save branch of the click handler on the chat it fetched: \<open>idx\<close> is the
  bubble's index, \<open>ta\<close> the editor's value (\<open>None\<close> when the bubble has no editor, then
  the entry's own content is taken). The result is \<open>None\<close> when the branch is not entered
  (no entry at \<open>idx\<close>, not a user entry, or not in edit mode). The handler then writes
  the chat back with \<open>updateChat\<close>, redraws, and fetches the reply for the new entry.
\<close>

definition save_action :: "nat \<Rightarrow> nat \<Rightarrow> jsstring option \<Rightarrow> chat \<Rightarrow> chat option" where
  "save_action now idx ta c =
     (if idx < length (history c) \<and> role (history c ! idx) = User \<and> editing (history c ! idx)
      then
        (let item = history c ! idx;
             newText = (case ta of Some v \<Rightarrow> v | None \<Rightarrow> content item);
             a = true_anchor idx item;
             h1 = (history c)[idx := item\<lparr>editing := False\<rparr>];
             br = bump_branch a (branch c);
             version = active br;
             ins = insertIdx a h1
         in Some (c\<lparr>branch := Some br,
                    history := splice_insert ins (newUser now newText a version) h1\<rparr>))
      else None)"

text \<open>
  The edit action of the click handler:
  \<^verbatim>\<open>else if (action === "edit" && item?.role === "user") { item.editing = true; ... }\<close>
\<close>

definition edit_action :: "nat \<Rightarrow> chat \<Rightarrow> chat option" where
  "edit_action idx c =
     (if idx < length (history c) \<and> role (history c ! idx) = User
      then Some (c\<lparr>history := (history c)[idx := (history c ! idx)\<lparr>editing := True\<rparr>]\<rparr>)
      else None)"

text \<open>
  A run of edits that all have the true anchor \<open>a\<close>: each is a click on edit and a click
  on save at the same bubble, given as the clock reading, the bubble index and the
  editor's value. \<open>None\<close> when a click of the run does nothing or has another anchor.
\<close>

fun save_seq :: "nat \<Rightarrow> (nat \<times> nat \<times> jsstring option) list \<Rightarrow> chat \<Rightarrow> chat option" where
  "save_seq a [] c = Some c"
| "save_seq a ((now, idx, ta) # ss) c =
     (if idx < length (history c) \<and> true_anchor idx (history c ! idx) = a
      then (case edit_action idx c of
              None \<Rightarrow> None
            | Some c1 \<Rightarrow>
                (case save_action now idx ta c1 of
                   None \<Rightarrow> None
                 | Some c' \<Rightarrow> save_seq a ss c'))
      else None)"

text \<open>
  The insertion point in the claim's words: immediately after the last entry behind the
  anchor that is tagged \<^verbatim>\<open>branch_of === anchor\<close>, or immediately after the anchor if
  there is none.
\<close>

definition last_tagged :: "nat \<Rightarrow> message list \<Rightarrow> nat option" where
  "last_tagged a h =
     (let tagged = filter (\<lambda>j. branch_of (h ! j) = Some a) [Suc a..<length h]
      in if tagged = [] then None else Some (last tagged))"

definition claimed_insertIdx :: "nat \<Rightarrow> message list \<Rightarrow> nat" where
  "claimed_insertIdx a h = (case last_tagged a h of None \<Rightarrow> a + 1 | Some j \<Rightarrow> j + 1)"

text \<open>
  Where the loop of the save action stops: the index of the first entry behind the anchor
  that has no numeric \<^verbatim>\<open>branch_of\<close>, or the end of the history.
\<close>

definition run_end :: "nat \<Rightarrow> message list \<Rightarrow> nat" where
  "run_end a h = a + 1 + length (takeWhile (\<lambda>m. branch_of m \<noteq> None) (drop (a + 1) h))"

section \<open>Rendering the visible view\<close>

text \<open>
  What \<^verbatim>\<open>addMessage(role, text, meta, opts)\<close> appends to the message surface: one bubble,
  recorded with the arguments of the call. An option the call leaves out is \<open>False\<close>,
  \<open>None\<close> or \<open>0\<close>, as \<^verbatim>\<open>addMessage\<close> reads it.
\<close>

record bubble =
  b_role :: role
  b_text :: jsstring
  b_meta :: "meta option"
  b_idx :: nat
  b_deleted :: bool
  b_time :: "nat option"
  b_editing :: bool
  b_edited :: bool
  b_isAnchor :: bool
  b_branchInfo :: "branch option"
  b_attachCount :: nat

text \<open>
  The three shapes of the call in \<^verbatim>\<open>renderChat\<close>: before the anchor (with the
  attachment count), at the anchor slot (content of \<open>v\<close> under index \<open>k\<close>, attachment
  count of the anchor entry \<open>m\<close>), and the call at the end of the loop body (no
  attachment count; \<^verbatim>\<open>isAnchor: br && i === br.anchor\<close>).
\<close>

definition bubble_before :: "nat \<Rightarrow> message \<Rightarrow> bubble" where
  "bubble_before i m =
     \<lparr>b_role = role m, b_text = content m, b_meta = meta m, b_idx = i, b_deleted = deleted m,
      b_time = time m, b_editing = editing m, b_edited = edited m, b_isAnchor = False,
      b_branchInfo = None, b_attachCount = attachCount m\<rparr>"

definition bubble_anchor :: "branch \<Rightarrow> nat \<Rightarrow> message \<Rightarrow> message \<Rightarrow> bubble" where
  "bubble_anchor br k v m =
     \<lparr>b_role = role v, b_text = content v, b_meta = meta v, b_idx = k, b_deleted = deleted v,
      b_time = time v, b_editing = editing v, b_edited = edited v, b_isAnchor = True,
      b_branchInfo = Some br, b_attachCount = attachCount m\<rparr>"

definition bubble_plain :: "branch option \<Rightarrow> nat \<Rightarrow> message \<Rightarrow> bubble" where
  "bubble_plain br i m =
     \<lparr>b_role = role m, b_text = content m, b_meta = meta m, b_idx = i, b_deleted = deleted m,
      b_time = time m, b_editing = editing m, b_edited = edited m,
      b_isAnchor = (case br of None \<Rightarrow> False | Some b \<Rightarrow> i = anchor b),
      b_branchInfo = (case br of None \<Rightarrow> None | Some b \<Rightarrow> if i = anchor b then Some b else None),
      b_attachCount = 0\<rparr>"






section \<open>Streamed sends\<close>

text \<open>
  One call of \<^verbatim>\<open>sendSSE\<close> owns an \<^verbatim>\<open>EventSource\<close> and the locals \<^verbatim>\<open>closed\<close>,
  \<^verbatim>\<open>fullText\<close>, \<^verbatim>\<open>textTarget\<close>, \<^verbatim>\<open>aiIdx\<close>, \<^verbatim>\<open>userIdx\<close>. \<open>es_open\<close> says that the
  \<^verbatim>\<open>EventSource\<close> has not been closed: a closed one dispatches no event to its
  listeners. \<open>textTarget\<close> is the \<^verbatim>\<open>textContent\<close> of the bubble element, \<open>None\<close> when
  the element was not found.
\<close>

record session =
  es_open :: bool
  closed :: bool
  fullText :: jsstring
  textTarget :: "jsstring option"
  aiIdx :: nat
  userIdx :: nat

text \<open>
  The globals of the page that the streamed path reads and writes. \<open>currentSSE\<close> holds
  the handle of an \<^verbatim>\<open>EventSource\<close>: its position in \<open>sessions\<close>.
\<close>

record app =
  store :: storage
  currentId :: "jsstring option"
  GAIA_BUSY :: bool
  currentSSE :: "nat option"
  sessions :: "session list"

definition setBusy :: "bool \<Rightarrow> app \<Rightarrow> app" where
  "setBusy b s = s\<lparr>GAIA_BUSY := b\<rparr>"

text \<open>
  \<^verbatim>\<open>pushUserMessage\<close> and \<^verbatim>\<open>pushAiMessage\<close>: push the entry, write the chat back, return
  the index. The pushed objects have the fields \<^verbatim>\<open>role\<close>, \<^verbatim>\<open>content\<close>, \<^verbatim>\<open>time\<close>.
\<close>

definition fresh_message :: "role \<Rightarrow> jsstring \<Rightarrow> nat \<Rightarrow> message" where
  "fresh_message r text t =
     \<lparr>role = r, content = text, meta = None, time = Some t, deleted = False, editing = False,
      edited = False, edited_from = None, branch_of = None, branch_version = None,
      attachCount = 0\<rparr>"

definition pushUserMessage :: "nat \<Rightarrow> jsstring \<Rightarrow> chat \<Rightarrow> storage \<Rightarrow> nat \<times> chat \<times> storage" where
  "pushUserMessage t text c st =
     (let c' = c\<lparr>history := history c @ [fresh_message User text t]\<rparr>
      in (length (history c), c', updateChat c' st))"

definition pushAiMessage :: "nat \<Rightarrow> jsstring \<Rightarrow> chat \<Rightarrow> storage \<Rightarrow> nat \<times> chat \<times> storage" where
  "pushAiMessage t text c st =
     (let c' = c\<lparr>history := history c @ [fresh_message Assistant text t]\<rparr>
      in (length (history c), c', updateChat c' st))"

definition STREAM_ERROR :: jsstring where
  "STREAM_ERROR = [9888, 65039] @ js '' Stream error. Try again.''"

definition THINKING :: jsstring where
  "THINKING = js ''Thinking'' @ [8230]"

text \<open>
  \<^verbatim>\<open>sendSSE(q)\<close> up to the point where the listeners are registered. \<open>now\<close> gives the
  clock readings of the turn (for a created chat, the user entry and the placeholder),
  \<open>mdl\<close> the selected model, \<open>tgt\<close> whether the bubble element of the placeholder was
  found. The request URL and the history sent along with it are not part of the state.
\<close>

definition sendSSE :: "(nat \<Rightarrow> nat) \<Rightarrow> jsstring \<Rightarrow> bool \<Rightarrow> jsstring \<Rightarrow> app \<Rightarrow> app" where
  "sendSSE now mdl tgt q s =
     (if GAIA_BUSY s then s
      else
        (let (c0, st0) = getChat (currentId s) (store s);
             (c, st1) = (case c0 of Some c \<Rightarrow> (c, st0)
                         | None \<Rightarrow> createChat (now 0) mdl (js ''New chat'') st0);
             (uIdx, c1, st2) = pushUserMessage (now 1) q c st1;
             (aIdx, c2, st3) = pushAiMessage (now 2) [] c1 st2;
             es = \<lparr>es_open = True, closed = False, fullText = [],
                   textTarget = (if tgt then Some THINKING else None),
                   aiIdx = aIdx, userIdx = uIdx\<rparr>
         in \<lparr>store = st3, currentId = Some (cid c), GAIA_BUSY = True,
             currentSSE = Some (length (sessions s)), sessions = sessions s @ [es]\<rparr>))"

text \<open>
  The two constants of \<^verbatim>\<open>finish(ok)\<close>:
  \<^verbatim>\<open>const renderedErr = (textTarget && textTarget.textContent)
       ? textTarget.textContent.trim() : "";
     const finalPersist = fullText.trim() ||
       (!ok ? (renderedErr || "\u26a0\ufe0f Stream error. Try again.") : "");\<close>
\<close>

definition renderedErr :: "session \<Rightarrow> jsstring" where
  "renderedErr se =
     (case textTarget se of None \<Rightarrow> [] | Some tc \<Rightarrow> if tc \<noteq> [] then trim tc else [])"

definition finalPersist :: "bool \<Rightarrow> session \<Rightarrow> jsstring" where
  "finalPersist ok se =
     (if trim (fullText se) \<noteq> [] then trim (fullText se)
      else if \<not> ok then (if renderedErr se \<noteq> [] then renderedErr se else STREAM_ERROR)
      else [])"

text \<open>
  \<^verbatim>\<open>finish(ok)\<close> of the session with handle \<open>h\<close>, at clock reading \<open>t\<close>. The final
  markdown render of the bubble writes the element only, which this session never reads
  again.
\<close>

definition finish :: "bool \<Rightarrow> nat \<Rightarrow> nat \<Rightarrow> app \<Rightarrow> app" where
  "finish ok t h s =
     (let se = sessions s ! h in
      if closed se then s
      else
        (let s1 = s\<lparr>sessions := (sessions s)[h := se\<lparr>closed := True, es_open := False\<rparr>],
                    currentSSE := None, GAIA_BUSY := False\<rparr>;
             (co, st1) = getChat (currentId s) (store s)
         in case co of
              None \<Rightarrow> s1\<lparr>store := st1\<rparr>
            | Some c \<Rightarrow>
                if aiIdx se < length (history c) then
                  (let m = history c ! aiIdx se;
                       c' = c\<lparr>history := (history c)[aiIdx se :=
                               m\<lparr>content := finalPersist ok se, time := Some t\<rparr>]\<rparr>
                   in s1\<lparr>store := updateChat c' st1\<rparr>)
                else s1\<lparr>store := st1\<rparr>))"

text \<open>
  The named events of the feed with what their listeners read from the payload:
  \<^item> \<open>Start p\<close>: \<open>p\<close> is \<^verbatim>\<open>info.model || ""\<close>, \<open>None\<close> when the payload does not parse;
  \<^item> \<open>Delta p\<close>: \<open>p\<close> is the \<^verbatim>\<open>text\<close> of the payload, \<open>None\<close> when the payload does not
    parse or has no text;
  \<^item> \<open>GaiaError p\<close>: \<open>p\<close> is \<^verbatim>\<open>info.error\<close>, \<open>None\<close> when the payload does not parse or
    has no error;
  \<^item> \<open>Error\<close>: the transport's error event; \<open>Done\<close>: the \<^verbatim>\<open>done\<close> event.
\<close>

datatype sse_event =
  Start "jsstring option"
| Delta "jsstring option"
| GaiaError "jsstring option"
| Error
| Done

definition set_session :: "nat \<Rightarrow> session \<Rightarrow> app \<Rightarrow> app" where
  "set_session h se s = s\<lparr>sessions := (sessions s)[h := se]\<rparr>"

text \<open>
  \<^verbatim>\<open>const msg = info.error || "Stream error. Try again.";\<close> The text shown is the
  warning sign U+26A0 U+FE0F and a space, followed by \<open>msg\<close>.
\<close>

definition gaia_msg :: "jsstring option \<Rightarrow> jsstring" where
  "gaia_msg p =
     (case p of
        None \<Rightarrow> js ''Stream error. Try again.''
      | Some e \<Rightarrow> if e \<noteq> [] then e else js ''Stream error. Try again.'')"

text \<open>The listener of session \<open>h\<close> for an event, at clock reading \<open>t\<close>.\<close>

fun listener :: "nat \<Rightarrow> nat \<Rightarrow> sse_event \<Rightarrow> app \<Rightarrow> app" where
  "listener t h (GaiaError p) s =
     (let se = sessions s ! h;
          se' = (case textTarget se of None \<Rightarrow> se
                 | Some _ \<Rightarrow> se\<lparr>textTarget := Some ([9888, 65039, 32] @ gaia_msg p)\<rparr>)
      in finish False t h (set_session h se' s))"
| "listener t h (Start p) s =
     (case p of
        None \<Rightarrow> s
      | Some modelName \<Rightarrow>
          (let se = sessions s ! h;
               (co, st1) = getChat (currentId s) (store s)
           in case co of
                None \<Rightarrow> s\<lparr>store := st1\<rparr>
              | Some c \<Rightarrow>
                  if aiIdx se < length (history c) then
                    (let m = history c ! aiIdx se;
                         mt = (case meta m of
                                 None \<Rightarrow> \<lparr>meta_model = Some modelName, meta_usage = None\<rparr>
                               | Some x \<Rightarrow> x\<lparr>meta_model := Some modelName\<rparr>);
                         c' = c\<lparr>history := (history c)[aiIdx se := m\<lparr>meta := Some mt\<rparr>]\<rparr>
                     in s\<lparr>store := updateChat c' st1\<rparr>)
                  else s\<lparr>store := st1\<rparr>))"
| "listener t h (Delta p) s =
     (case p of
        None \<Rightarrow> s
      | Some text \<Rightarrow>
          if text = [] then s
          else
            (let se = sessions s ! h;
                 ft = fullText se @ text
             in set_session h (se\<lparr>fullText := ft,
                                   textTarget := (case textTarget se of None \<Rightarrow> None
                                                  | Some _ \<Rightarrow> Some ft)\<rparr>) s))"
| "listener t h Error s =
     (let se = sessions s ! h;
          se' = (if textTarget se \<noteq> None \<and> fullText se = []
                 then se\<lparr>textTarget := Some STREAM_ERROR\<rparr> else se)
      in finish False t h (set_session h se' s))"
| "listener t h Done s = finish True t h s"

text \<open>
  An event of the feed of session \<open>h\<close> reaches the listener only while the
  \<^verbatim>\<open>EventSource\<close> is open.
\<close>

definition deliver :: "nat \<Rightarrow> nat \<times> sse_event \<Rightarrow> app \<Rightarrow> app" where
  "deliver h te s =
     (if h < length (sessions s) \<and> es_open (sessions s ! h)
      then listener (fst te) h (snd te) s else s)"

definition deliver_all :: "nat \<Rightarrow> (nat \<times> sse_event) list \<Rightarrow> app \<Rightarrow> app" where
  "deliver_all h tes s = fold (deliver h) tes s"

text \<open>
  The click handler of \<^verbatim>\<open>#btn-stop\<close>:
  \<^verbatim>\<open>if (currentSSE) { try { currentSSE.close(); } catch (e) {} currentSSE = null; }\<close>
  Its second statement aborts a pending \<^verbatim>\<open>fetch\<close> of the buffered route and touches
  nothing of the streamed path.
\<close>

definition stop_click :: "app \<Rightarrow> app" where
  "stop_click s =
     (case currentSSE s of
        None \<Rightarrow> s
      | Some h \<Rightarrow> s\<lparr>sessions := (sessions s)[h := (sessions s ! h)\<lparr>es_open := False\<rparr>],
                    currentSSE := None\<rparr>)"

text \<open>
  The stored record of the current chat, and the content stored for its entry at index
  \<open>i\<close>, if there is one.
\<close>

definition current_chat :: "app \<Rightarrow> chat option" where
  "current_chat s =
     (case currentId s of
        None \<Rightarrow> None
      | Some k \<Rightarrow> find (\<lambda>c. cid c = k) (loadAll (store s)))"

definition persisted :: "app \<Rightarrow> nat \<Rightarrow> jsstring option" where
  "persisted s i =
     (case current_chat s of
        None \<Rightarrow> None
      | Some c \<Rightarrow> if i < length (history c) then Some (content (history c ! i)) else None)"

text \<open>
  Session \<open>h\<close> is streaming: its feed is open, \<open>finish\<close> has not run, its buffer is
  \<open>buf\<close>, its bubble element (present iff \<open>tgt\<close>) shows the buffer, or the typing text
  while the buffer is empty, and the current chat has the placeholder index \<open>a\<close>.
\<close>

definition streaming :: "nat \<Rightarrow> nat \<Rightarrow> bool \<Rightarrow> jsstring \<Rightarrow> app \<Rightarrow> bool" where
  "streaming h a tgt buf s =
     (h < length (sessions s)
      \<and> es_open (sessions s ! h) \<and> \<not> closed (sessions s ! h)
      \<and> aiIdx (sessions s ! h) = a \<and> fullText (sessions s ! h) = buf
      \<and> textTarget (sessions s ! h) = (if tgt then Some (if buf = [] then THINKING else buf) else None)
      \<and> (case current_chat s of None \<Rightarrow> False | Some c \<Rightarrow> a < length (history c)))"

text \<open>The fragments of the \<^verbatim>\<open>delta\<close> events of a run, in arrival order.\<close>

fun delta_text :: "nat \<times> sse_event \<Rightarrow> jsstring" where
  "delta_text (t, Delta (Some x)) = x"
| "delta_text (t, e) = []"

fun ongoing :: "nat \<times> sse_event \<Rightarrow> bool" where
  "ongoing (t, Start p) = True"
| "ongoing (t, Delta p) = True"
| "ongoing (t, e) = False"

section \<open>Model versions\<close>

text \<open>
  The version dropdown \<^verbatim>\<open>versionSel\<close> (\<open>None\<close> when the page has no such element) with
  its options, the request counter \<^verbatim>\<open>_mvReqSeq\<close> and the value of the model dropdown.
\<close>

record voption =
  o_value :: jsstring
  o_text :: jsstring

record version =
  v_id :: jsstring
  v_label :: "jsstring option"

record versions_ui =
  mvReqSeq :: nat
  versionSel :: "voption list option"
  modelSel :: jsstring

text \<open>
  What the awaited part of \<^verbatim>\<open>loadModelVersions\<close> ends with: a body that parsed, as
  the table \<^verbatim>\<open>json.data\<close> from model keys to version lists (no entry where the key
  or its \<^verbatim>\<open>versions\<close> is missing), or a failure (\<^verbatim>\<open>fetch\<close> rejected or the body was not
  JSON), which lands in the \<^verbatim>\<open>catch\<close>.
\<close>

datatype fetched = Parsed "jsstring \<rightharpoonup> version list" | Failed

definition LATEST :: voption where
  "LATEST = \<lparr>o_value = [], o_text = js ''latest''\<rparr>"

definition mk_option :: "version \<Rightarrow> voption" where
  "mk_option v =
     \<lparr>o_value = v_id v,
      o_text = (case v_label v of None \<Rightarrow> v_id v | Some l \<Rightarrow> if l \<noteq> [] then l else v_id v)\<rparr>"

text \<open>
  \<^verbatim>\<open>loadModelVersions\<close> up to its \<^verbatim>\<open>await\<close>: returns the request's tag \<^verbatim>\<open>reqId\<close>
  (\<open>None\<close> when the function returned at once).
\<close>

definition lmv_request :: "versions_ui \<Rightarrow> nat option \<times> versions_ui" where
  "lmv_request ui =
     (if versionSel ui = None then (None, ui)
      else (Some (mvReqSeq ui + 1), ui\<lparr>mvReqSeq := mvReqSeq ui + 1\<rparr>))"

text \<open>\<^verbatim>\<open>loadModelVersions\<close> after its \<^verbatim>\<open>await\<close>, for the request tagged \<open>reqId\<close>.\<close>

definition lmv_response :: "nat \<Rightarrow> fetched \<Rightarrow> versions_ui \<Rightarrow> versions_ui" where
  "lmv_response reqId r ui =
     (case r of
        Failed \<Rightarrow> ui\<lparr>versionSel := Some [LATEST]\<rparr>
      | Parsed data \<Rightarrow>
          if reqId \<noteq> mvReqSeq ui then ui
          else
            (let versions = take 3 (case data (modelSel ui) of None \<Rightarrow> [] | Some vs \<Rightarrow> vs)
             in ui\<lparr>versionSel := Some (LATEST # map mk_option versions)\<rparr>))"

section \<open>Sample chats\<close>

text \<open>
  A chat of two exchanges whose second user entry, at index 2, is in edit mode.
\<close>

definition sample_chat :: chat where
  "sample_chat =
     \<lparr>cid = js ''c_1'', name = js ''New chat'', model = js ''grok'',
      history = [fresh_message User (js ''hi'') 1, fresh_message Assistant (js ''hello'') 2,
                 (fresh_message User (js ''What is 2+2?'') 3)\<lparr>editing := True\<rparr>,
                 fresh_message Assistant (js ''4'') 4],
      stats = Some DEFAULT_STATS, branch = None\<rparr>"

text \<open>
  A chat in which the entry at index 4 was edited first and the entry at index 2
  afterwards: the second edit put its version behind index 2 and moved the entries of
  the first edit, still tagged with 4, two places on. The version at index 7 is in edit
  mode, with the pager of anchor 2 at version 1.
\<close>

definition forked_chat :: chat where
  "forked_chat =
     \<lparr>cid = js ''c_1'', name = js ''New chat'', model = js ''grok'',
      history = [fresh_message User (js ''a'') 1,
                 fresh_message Assistant (js ''b'') 2,
                 fresh_message User (js ''c'') 3,
                 newUser 8 (js ''c2'') 2 2,
                 (fresh_message Assistant (js ''d2'') 9)\<lparr>branch_of := Some 2, branch_version := Some 2\<rparr>,
                 fresh_message Assistant (js ''d'') 4,
                 fresh_message User (js ''e'') 5,
                 (newUser 6 (js ''e2'') 4 2)\<lparr>editing := True\<rparr>,
                 (fresh_message Assistant (js ''f2'') 7)\<lparr>branch_of := Some 4, branch_version := Some 2\<rparr>,
                 fresh_message Assistant (js ''f'') 6],
      stats = Some DEFAULT_STATS,
      branch = Some \<lparr>anchor = 2, active = 1, total_b = 2\<rparr>\<rparr>"


text \<open>The page right after loading, with nothing stored.\<close>

definition init_app :: app where
  "init_app = \<lparr>store = None, currentId = None, GAIA_BUSY = False, currentSSE = None, sessions = []\<rparr>"

section \<open>Theorems\<close>

subsection \<open>The chat store\<close>

lemma findIndex_from_None:
  "(\<forall>x \<in> set xs. \<forall>j. \<not> p x j) \<Longrightarrow> findIndex_from p j xs = None"
  by (induction xs arbitrary: j) auto

lemma findIndex_None: "(\<forall>x \<in> set xs. \<not> q x) \<Longrightarrow> findIndex (\<lambda>x _. q x) xs = None"
  unfolding findIndex_def by (rule findIndex_from_None) simp

text \<open>
  Claim C10. For every chat object whose id does not occur in the persisted chat list,
  \<open>updateChat\<close> leaves the persisted record unchanged: it never inserts a record for an
  unknown id.
\<close>

theorem updateChat_unknown_id:
  "cid ch \<notin> cid ` set (loadAll st) \<Longrightarrow> updateChat ch st = st"
proof -
  assume "cid ch \<notin> cid ` set (loadAll st)"
  then have "\<forall>x \<in> set (loadAll st). \<not> cid x = cid ch" by (auto simp: image_iff)
  then have "findIndex (\<lambda>x _. cid x = cid ch) (loadAll st) = None" by (rule findIndex_None)
  then show ?thesis by (simp add: updateChat_def)
qed

theorem updateChat_unknown_id_witness:
  "cid \<lparr>cid = js ''b'', name = [], model = [], history = [], stats = None, branch = None\<rparr>
     \<notin> cid ` set (loadAll (Some [\<lparr>cid = js ''a'', name = [], model = [], history = [],
                                     stats = None, branch = None\<rparr>]))
   \<and> updateChat \<lparr>cid = js ''b'', name = [], model = [], history = [], stats = None, branch = None\<rparr>
        (Some [\<lparr>cid = js ''a'', name = [], model = [], history = [], stats = None, branch = None\<rparr>])
      = Some [\<lparr>cid = js ''a'', name = [], model = [], history = [], stats = None, branch = None\<rparr>]"
  using updateChat_unknown_id
    [of "\<lparr>cid = js ''b'', name = [], model = [], history = [], stats = None, branch = None\<rparr>"
        "Some [\<lparr>cid = js ''a'', name = [], model = [], history = [], stats = None, branch = None\<rparr>]"]
  by (simp add: loadAll_def js_def)

subsection \<open>Cycling through the versions\<close>

lemma js_rem_pos: "0 \<le> a \<Longrightarrow> 0 < b \<Longrightarrow> js_rem a b = a mod b"
  by (cases "a = 0") (simp_all add: js_rem_def)

lemma cycle_active: "1 \<le> active br \<Longrightarrow> active br \<le> total_b br \<Longrightarrow>
   active (cycle br) = (if active br = total_b br then 1 else active br + 1)"
  by (simp add: cycle_def js_rem_pos)

lemma cycle_other: "anchor (cycle br) = anchor br" "total_b (cycle br) = total_b br"
  by (simp_all add: cycle_def)

lemma cycle_range: "1 \<le> active br \<Longrightarrow> active br \<le> total_b br \<Longrightarrow>
   1 \<le> active (cycle br) \<and> active (cycle br) \<le> total_b br"
  by (simp add: cycle_active)

lemma cycle_iter:
  assumes "1 \<le> active br" "active br \<le> total_b br"
  shows "(cycle ^^ n) br = br\<lparr>active := (active br - 1 + int n) mod total_b br + 1\<rparr>"
proof (induction n)
  case 0
  from assms show ?case by simp
next
  case (Suc n)
  let ?t = "total_b br"
  let ?x = "(active br - 1 + int n) mod ?t"
  have t: "0 < ?t" using assms by simp
  have x: "0 \<le> ?x" "?x < ?t" using t by simp_all
  have step: "(?x + 1) mod ?t + 1 = (if ?x + 1 = ?t then 1 else ?x + 2)"
    using x by (auto simp: mod_pos_pos_trivial)
  have "(active br - 1 + int (Suc n)) mod ?t = (?x + 1) mod ?t"
    by (simp add: mod_add_left_eq add.assoc)
  moreover have "cycle (br\<lparr>active := ?x + 1\<rparr>) = br\<lparr>active := (?x + 1) mod ?t + 1\<rparr>"
    using x t by (simp add: cycle_def js_rem_pos)
  ultimately show ?case using Suc by simp
qed


lemma cycle_at:
  "1 \<le> a \<Longrightarrow> a \<le> total_b br \<Longrightarrow>
     active (cycle (br\<lparr>active := a\<rparr>)) = (if a = total_b br then 1 else a + 1)"
  using cycle_active [of "br\<lparr>active := a\<rparr>"] by simp

lemma succ_wrap_bij:
  "(1::int) \<le> t \<Longrightarrow> bij_betw (\<lambda>a. if a = t then 1 else a + 1) {1..t} {1..t}"
  by (rule bij_betw_byWitness [where f' = "\<lambda>y. if y = 1 then t else y - 1"]) auto

lemma cycle_bij:
  assumes "1 \<le> total_b br"
  shows "bij_betw (\<lambda>a. active (cycle (br\<lparr>active := a\<rparr>))) {1..total_b br} {1..total_b br}"
proof -
  have b: "bij_betw (\<lambda>a. if a = total_b br then 1 else a + 1) {1..total_b br} {1..total_b br}"
    using assms by (rule succ_wrap_bij)
  have eq: "\<And>a. a \<in> {1..total_b br} \<Longrightarrow>
      active (cycle (br\<lparr>active := a\<rparr>)) = (if a = total_b br then 1 else a + 1)"
    by (simp add: cycle_at)
  show ?thesis
    by (rule iffD2 [OF bij_betw_cong [OF eq] b]) assumption
qed

lemma cycle_period:
  assumes "1 \<le> active br" and "active br \<le> total_b br"
  shows "(cycle ^^ nat (total_b br)) br = br"
proof -
  let ?t = "total_b br"
  have t: "1 \<le> ?t" using assms by simp
  have "(cycle ^^ nat ?t) br = br\<lparr>active := (active br - 1 + ?t) mod ?t + 1\<rparr>"
    using cycle_iter [OF assms, of "nat ?t"] t by simp
  also have "(active br - 1 + ?t) mod ?t = active br - 1"
    using assms by (simp add: mod_pos_pos_trivial)
  finally show ?thesis by simp
qed

text \<open>
  Claim C5. The cycle operation maps \<open>active\<close> to \<open>(active % total) + 1\<close>; for every branch
  state with \<open>total \<ge> 1\<close> and \<open>1 \<le> active \<le> total\<close> the remainder is the mathematical
  \<open>mod\<close>, the map is a bijection on \<open>{1..total}\<close>, and applying it \<open>total\<close> times gives the
  branch state back.
\<close>

theorem cycle_bijection:
  assumes "1 \<le> total_b br" and "1 \<le> active br" and "active br \<le> total_b br"
  shows "active (cycle br) = js_rem (active br) (total_b br) + 1
       \<and> js_rem (active br) (total_b br) = active br mod total_b br
       \<and> bij_betw (\<lambda>a. active (cycle (br\<lparr>active := a\<rparr>))) {1..total_b br} {1..total_b br}
       \<and> (cycle ^^ nat (total_b br)) br = br"
  using assms cycle_bij [OF assms(1)] cycle_period [OF assms(2,3)]
  by (simp add: cycle_def js_rem_pos)

theorem cycle_bijection_witness:
  "active (cycle \<lparr>anchor = 2, active = 3, total_b = 3\<rparr>) = 1
   \<and> bij_betw (\<lambda>a. active (cycle \<lparr>anchor = 2, active = a, total_b = 3\<rparr>)) {1..3} {1..3}
   \<and> (cycle ^^ 3) \<lparr>anchor = 2, active = 3, total_b = 3\<rparr> = \<lparr>anchor = 2, active = 3, total_b = 3\<rparr>"
  using cycle_bijection [of "\<lparr>anchor = 2, active = 3, total_b = 3\<rparr>"]
  by (simp add: js_rem_def)

subsection \<open>The branch state on saving an edit\<close>

lemma bump_branch_new:
  "b = None \<or> (\<exists>br. b = Some br \<and> anchor br \<noteq> a) \<Longrightarrow>
     bump_branch a b = \<lparr>anchor = a, active = 2, total_b = 2\<rparr>"
  by (auto simp: bump_branch_def)

lemma bump_branch_same:
  "anchor br = a \<Longrightarrow> total_b br \<noteq> 0 \<Longrightarrow>
     bump_branch a (Some br) = br\<lparr>total_b := total_b br + 1, active := total_b br + 1\<rparr>"
  by (simp add: bump_branch_def Let_def)

lemma save_action_branch:
  "save_action now idx ta c = Some c' \<Longrightarrow>
     branch c' = Some (bump_branch (true_anchor idx (history c ! idx)) (branch c))"
  by (auto simp: save_action_def Let_def split: if_splits)

lemma edit_action_branch: "edit_action idx c = Some c1 \<Longrightarrow> branch c1 = branch c"
  by (auto simp: edit_action_def split: if_splits)

lemma edit_action_anchor:
  "edit_action idx c = Some c1 \<Longrightarrow>
     true_anchor idx (history c1 ! idx) = true_anchor idx (history c ! idx)"
  by (auto simp: edit_action_def true_anchor_def split: if_splits)

lemma save_seq_total:
  "save_seq a ss c = Some c' \<Longrightarrow> branch c = Some br \<Longrightarrow> anchor br = a \<Longrightarrow> 1 \<le> total_b br \<Longrightarrow>
   active br = total_b br \<Longrightarrow>
     \<exists>br'. branch c' = Some br' \<and> anchor br' = a \<and> total_b br' = total_b br + int (length ss)
           \<and> active br' = total_b br'"
proof (induction ss arbitrary: c br)
  case Nil
  then show ?case by simp
next
  case (Cons s ss)
  obtain now idx ta where s: "s = (now, idx, ta)" by (cases s)
  from Cons.prems(1) s obtain c1 c2 where
    a: "true_anchor idx (history c ! idx) = a" and
    e: "edit_action idx c = Some c1" and
    sv: "save_action now idx ta c1 = Some c2" and
    rest: "save_seq a ss c2 = Some c'"
    by (auto split: if_splits option.splits)
  have "branch c2 = Some (bump_branch a (Some br))"
    using save_action_branch [OF sv] edit_action_branch [OF e] edit_action_anchor [OF e] a Cons.prems(2)
    by simp
  then have b2: "branch c2 = Some (br\<lparr>total_b := total_b br + 1, active := total_b br + 1\<rparr>)"
    using Cons.prems(3,4) by (simp add: bump_branch_same)
  from Cons.IH [OF rest b2] Cons.prems(3,4) show ?case by auto
qed

text \<open>
  Claim C3. Whenever an edit of a user message is saved: if the chat has no branch state,
  or its branch state targets another anchor, the branch state becomes
  \<open>{anchor, active: 2, total: 2}\<close>; if the branch state already targets this anchor,
  \<open>total\<close> grows by exactly 1 and \<open>active\<close> is set to \<open>total\<close>; consequently every further
  run of edits on the same anchor grows \<open>total\<close> by one per save and leaves
  \<open>active = total\<close>. A branch state has \<open>total \<ge> 1\<close>, as the data model says
  (\<open>active \<in> [1, total]\<close>).
\<close>

theorem save_branch_state:
  assumes "save_action now idx ta c = Some c'"
    and "a = true_anchor idx (history c ! idx)"
    and "\<forall>br. branch c = Some br \<and> anchor br = a \<longrightarrow> 1 \<le> total_b br"
  shows "((branch c = None \<or> (\<exists>br. branch c = Some br \<and> anchor br \<noteq> a)) \<longrightarrow>
            branch c' = Some \<lparr>anchor = a, active = 2, total_b = 2\<rparr>)
       \<and> (\<forall>br. branch c = Some br \<and> anchor br = a \<longrightarrow>
            branch c' = Some \<lparr>anchor = a, active = total_b br + 1, total_b = total_b br + 1\<rparr>)
       \<and> (\<forall>ss c''. save_seq a ss c' = Some c'' \<longrightarrow>
            (\<exists>b1 b2. branch c' = Some b1 \<and> branch c'' = Some b2 \<and> anchor b2 = a
                \<and> total_b b2 = total_b b1 + int (length ss) \<and> active b2 = total_b b2))"
proof -
  have br': "branch c' = Some (bump_branch a (branch c))"
    using save_action_branch [OF assms(1)] assms(2) by simp
  have new: "(branch c = None \<or> (\<exists>br. branch c = Some br \<and> anchor br \<noteq> a)) \<longrightarrow>
            branch c' = Some \<lparr>anchor = a, active = 2, total_b = 2\<rparr>"
    using br' by (auto simp: bump_branch_new)
  have same: "\<forall>br. branch c = Some br \<and> anchor br = a \<longrightarrow>
            branch c' = Some \<lparr>anchor = a, active = total_b br + 1, total_b = total_b br + 1\<rparr>"
  proof (intro allI impI)
    fix br assume h: "branch c = Some br \<and> anchor br = a"
    with assms(3) have "total_b br \<noteq> 0" by auto
    with h br' show "branch c' = Some \<lparr>anchor = a, active = total_b br + 1, total_b = total_b br + 1\<rparr>"
      by (simp add: bump_branch_same)
  qed
  obtain b1 where b1: "branch c' = Some b1" "anchor b1 = a" "1 \<le> total_b b1" "active b1 = total_b b1"
  proof (cases "branch c = None \<or> (\<exists>br. branch c = Some br \<and> anchor br \<noteq> a)")
    case True
    with new that show ?thesis by simp
  next
    case False
    then obtain br where "branch c = Some br" "anchor br = a" by auto
    with same assms(3) that show ?thesis by simp
  qed
  have seqs: "\<forall>ss c''. save_seq a ss c' = Some c'' \<longrightarrow>
            (\<exists>b1 b2. branch c' = Some b1 \<and> branch c'' = Some b2 \<and> anchor b2 = a
                \<and> total_b b2 = total_b b1 + int (length ss) \<and> active b2 = total_b b2)"
  proof (intro allI impI)
    fix ss c'' assume "save_seq a ss c' = Some c''"
    from save_seq_total [OF this b1] b1(1)
    show "\<exists>b1 b2. branch c' = Some b1 \<and> branch c'' = Some b2 \<and> anchor b2 = a
                \<and> total_b b2 = total_b b1 + int (length ss) \<and> active b2 = total_b b2"
      by auto
  qed
  from new same seqs show ?thesis by blast
qed

lemmas save_eval = save_action_def edit_action_def true_anchor_def bump_branch_def insertIdx_def
  splice_insert_def newUser_def fresh_message_def Let_def

lemma sample_save:
  "save_action 7 2 (Some (js ''What is 3+3?'')) sample_chat
     = Some (sample_chat\<lparr>branch := Some \<lparr>anchor = 2, active = 2, total_b = 2\<rparr>,
          history := [fresh_message User (js ''hi'') 1, fresh_message Assistant (js ''hello'') 2,
                 fresh_message User (js ''What is 2+2?'') 3,
                 newUser 7 (js ''What is 3+3?'') 2 2,
                 fresh_message Assistant (js ''4'') 4]\<rparr>)"
  by (simp add: sample_chat_def save_eval)

lemma sample_seq:
  "map_option branch (save_seq 2 [(8, 3, None)] (sample_chat\<lparr>branch := Some \<lparr>anchor = 2, active = 2, total_b = 2\<rparr>,
          history := [fresh_message User (js ''hi'') 1, fresh_message Assistant (js ''hello'') 2,
                 fresh_message User (js ''What is 2+2?'') 3,
                 newUser 7 (js ''What is 3+3?'') 2 2,
                 fresh_message Assistant (js ''4'') 4]\<rparr>)) = Some (Some \<lparr>anchor = 2, active = 3, total_b = 3\<rparr>)"
  by (simp add: sample_chat_def save_eval)

theorem save_branch_state_witness:
  "save_action 7 2 (Some (js ''What is 3+3?'')) sample_chat \<noteq> None
   \<and> branch sample_chat = None
   \<and> branch (the (save_action 7 2 (Some (js ''What is 3+3?'')) sample_chat))
       = Some \<lparr>anchor = 2, active = 2, total_b = 2\<rparr>
   \<and> map_option branch
        (save_seq 2 [(8, 3, None)] (the (save_action 7 2 (Some (js ''What is 3+3?'')) sample_chat)))
       = Some (Some \<lparr>anchor = 2, active = 3, total_b = 3\<rparr>)
   \<and> branch (the (save_action 9 2 None
                (sample_chat\<lparr>branch := Some \<lparr>anchor = 2, active = 1, total_b = 4\<rparr>\<rparr>)))
       = Some \<lparr>anchor = 2, active = 5, total_b = 5\<rparr>"
proof -
  have a: "2 = true_anchor 2 (history sample_chat ! 2)"
    by (simp add: sample_chat_def fresh_message_def true_anchor_def)
  have bn: "branch sample_chat = None"
    by (simp add: sample_chat_def)
  have wf: "\<forall>br. branch sample_chat = Some br \<and> anchor br = 2 \<longrightarrow> 1 \<le> total_b br"
    by (simp add: bn)
  have b1: "branch (the (save_action 7 2 (Some (js ''What is 3+3?'')) sample_chat))
       = Some \<lparr>anchor = 2, active = 2, total_b = 2\<rparr>"
    using save_branch_state [OF sample_save a wf] bn by (simp add: sample_save)
  let ?c = "sample_chat\<lparr>branch := Some \<lparr>anchor = 2, active = 1, total_b = 4\<rparr>\<rparr>"
  have s2: "save_action 9 2 None ?c = Some (the (save_action 9 2 None ?c))"
    by (simp add: sample_chat_def save_eval)
  have a2: "2 = true_anchor 2 (history ?c ! 2)"
    by (simp add: sample_chat_def fresh_message_def true_anchor_def)
  have wf2: "\<forall>br. branch ?c = Some br \<and> anchor br = 2 \<longrightarrow> 1 \<le> total_b br"
    by auto
  have b2: "branch (the (save_action 9 2 None ?c)) = Some \<lparr>anchor = 2, active = 5, total_b = 5\<rparr>"
    using save_branch_state [OF s2 a2 wf2] by simp
  show ?thesis using b1 b2 bn sample_seq by (simp add: sample_save)
qed

subsection \<open>Where the new version is inserted\<close>

lemma scan_append:
  "\<forall>t \<in> set ts. branch_of t \<noteq> None \<Longrightarrow>
     scan a j ins (ts @ us) = scan a (j + length ts) (scan a j ins ts) us"
  by (induction ts arbitrary: j ins) auto

lemma scan_takeWhile:
  "scan a j ins ts = scan a j ins (takeWhile (\<lambda>m. branch_of m \<noteq> None) ts)"
  by (induction ts arbitrary: j ins) auto

lemma scan_run:
  "\<forall>t \<in> set ts. branch_of t \<noteq> None \<Longrightarrow>
     scan a j j ts = j + (length ts - length (takeWhile (\<lambda>m. branch_of m \<noteq> Some a) (rev ts)))"
proof (induction ts rule: rev_induct)
  case Nil
  then show ?case by simp
next
  case (snoc t ts)
  then have tagged: "\<forall>t \<in> set ts. branch_of t \<noteq> None" and t: "branch_of t \<noteq> None" by simp_all
  have le: "length (takeWhile (\<lambda>m. branch_of m \<noteq> Some a) (rev ts)) \<le> length ts"
    using length_takeWhile_le [of _ "rev ts"] by simp
  show ?case
    using snoc.IH [OF tagged] t le by (simp add: scan_append [OF tagged])
qed

lemma last_index_suffix:
  "(let tagged = filter (\<lambda>j. Q ((pre @ ts) ! j)) [length pre..<length pre + length ts]
    in if tagged = [] then None else Some (last tagged))
   = (if \<exists>m \<in> set ts. Q m
      then Some (length pre + (length ts - length (takeWhile (\<lambda>m. \<not> Q m) (rev ts))) - 1)
      else None)"
proof (induction ts rule: rev_induct)
  case Nil
  then show ?case by simp
next
  case (snoc t ts)
  let ?n = "length pre" and ?k = "length ts"
  have cong: "filter (\<lambda>j. Q ((pre @ ts @ [t]) ! j)) [?n..<?n + ?k]
            = filter (\<lambda>j. Q ((pre @ ts) ! j)) [?n..<?n + ?k]"
    by (rule filter_cong) (auto simp: nth_append)
  have at: "(pre @ ts @ [t]) ! (?n + ?k) = t"
    by (simp add: nth_append)
  have le: "length (takeWhile (\<lambda>m. \<not> Q m) (rev ts)) \<le> ?k"
    using length_takeWhile_le [of _ "rev ts"] by simp
  show ?case
  proof (cases "Q t")
    case True
    then show ?thesis by (simp add: cong at Let_def)
  next
    case False
    with snoc.IH le show ?thesis
      by (simp add: cong at Let_def)
  qed
qed

lemma takeWhile_all_length:
  "(length (takeWhile P xs) = length xs) = (\<forall>x \<in> set xs. P x)"
  by (induction xs) auto

lemma claimed_insertIdx_suffix:
  "claimed_insertIdx a h =
     a + 1 + (length (drop (a + 1) h)
              - length (takeWhile (\<lambda>m. branch_of m \<noteq> Some a) (rev (drop (a + 1) h))))"
proof (cases "a + 1 \<le> length h")
  case False
  then show ?thesis by (simp add: claimed_insertIdx_def last_tagged_def)
next
  case True
  let ?pre = "take (a + 1) h" and ?ts = "drop (a + 1) h"
  let ?L = "length (takeWhile (\<lambda>m. branch_of m \<noteq> Some a) (rev ?ts))"
  have h: "h = ?pre @ ?ts" by simp
  have n: "length ?pre = Suc a" using True by simp
  have len: "length h = Suc a + length ?ts" using True by simp
  have e1: "[Suc a..<length h] = [length ?pre..<length ?pre + length ?ts]"
    by (simp only: n len)
  have e2: "(\<lambda>j. branch_of (h ! j) = Some a) = (\<lambda>j. branch_of ((?pre @ ?ts) ! j) = Some a)"
    by simp
  have "last_tagged a h =
      (let tagged = filter (\<lambda>j. branch_of ((?pre @ ?ts) ! j) = Some a)
                      [length ?pre..<length ?pre + length ?ts]
       in if tagged = [] then None else Some (last tagged))"
    unfolding last_tagged_def e1 e2 ..
  also have "\<dots> = (if \<exists>m \<in> set ?ts. branch_of m = Some a
      then Some (length ?pre + (length ?ts - ?L) - 1) else None)"
    by (rule last_index_suffix [of "\<lambda>m. branch_of m = Some a" ?pre ?ts])
  finally have lt: "last_tagged a h = (if \<exists>m \<in> set ?ts. branch_of m = Some a
      then Some (Suc a + (length ?ts - ?L) - 1) else None)"
    using n by simp
  have all: "(?L = length ?ts) = (\<forall>m \<in> set ?ts. branch_of m \<noteq> Some a)"
    using takeWhile_all_length [of "\<lambda>m. branch_of m \<noteq> Some a" "rev ?ts"] by simp
  have le: "?L \<le> length ?ts"
    using length_takeWhile_le [of _ "rev ?ts"] by simp
  show ?thesis
  proof (cases "\<exists>m \<in> set ?ts. branch_of m = Some a")
    case ex: True
    with all have "?L \<noteq> length ?ts" by blast
    with le have "?L < length ?ts" by simp
    with ex lt show ?thesis by (simp add: claimed_insertIdx_def)
  next
    case nex: False
    with all have "?L = length ?ts" by blast
    with nex lt show ?thesis by (simp add: claimed_insertIdx_def)
  qed
qed

lemma drop_take_run:
  "drop (a + 1) (take (run_end a h) h) = takeWhile (\<lambda>m. branch_of m \<noteq> None) (drop (a + 1) h)"
  by (simp add: run_end_def drop_take takeWhile_eq_take [symmetric])

lemma insertIdx_run:
  "insertIdx a h = claimed_insertIdx a (take (run_end a h) h)"
proof -
  let ?ts = "takeWhile (\<lambda>m. branch_of m \<noteq> None) (drop (a + 1) h)"
  have tagged: "\<forall>t \<in> set ?ts. branch_of t \<noteq> None"
    by (auto dest: set_takeWhileD)
  have "insertIdx a h = scan a (a + 1) (a + 1) ?ts"
    unfolding insertIdx_def by (rule scan_takeWhile)
  also have "\<dots> = a + 1 + (length ?ts - length (takeWhile (\<lambda>m. branch_of m \<noteq> Some a) (rev ?ts)))"
    by (rule scan_run [OF tagged])
  also have "\<dots> = claimed_insertIdx a (take (run_end a h) h)"
    by (simp only: claimed_insertIdx_suffix drop_take_run)
  finally show ?thesis .
qed

lemma filter_upt_take:
  assumes "\<forall>j. k \<le> j \<and> j < length h \<longrightarrow> \<not> Q (h ! j)"
  shows "filter (\<lambda>j. Q (h ! j)) [i..<length h] = filter (\<lambda>j. Q (take k h ! j)) [i..<length (take k h)]"
proof (cases "k \<le> length h")
  case False
  then have "take k h = h" by simp
  then show ?thesis by (simp only:)
next
  case True
  then obtain d where d: "length h = k + d" using le_Suc_ex by blast
  have len: "length (take k h) = k" using True by simp
  show ?thesis
  proof (cases "i \<le> k")
    case ik: True
    have split: "[i..<length h] = [i..<k] @ [k..<k + d]"
      unfolding d using ik by (rule upt_add_eq_append)
    have tail: "filter (\<lambda>j. Q (h ! j)) [k..<k + d] = []"
      using assms d by (simp add: filter_empty_conv)
    have front: "filter (\<lambda>j. Q (h ! j)) [i..<k] = filter (\<lambda>j. Q (take k h ! j)) [i..<k]"
      by (rule filter_cong) simp_all
    show ?thesis
      unfolding len split filter_append tail front by simp
  next
    case ki: False
    have "filter (\<lambda>j. Q (h ! j)) [i..<length h] = []"
      using assms ki by (simp add: filter_empty_conv)
    moreover have "[i..<k] = []" using ki by simp
    ultimately show ?thesis by (simp only: len filter.simps)
  qed
qed

lemma insertIdx_claimed:
  assumes "\<forall>j. run_end a h \<le> j \<and> j < length h \<longrightarrow> branch_of (h ! j) \<noteq> Some a"
  shows "insertIdx a h = claimed_insertIdx a h"
proof -
  have "last_tagged a (take (run_end a h) h) = last_tagged a h"
    unfolding last_tagged_def
    using filter_upt_take [of "run_end a h" h "\<lambda>m. branch_of m = Some a" "Suc a"] assms
    by (simp only: simp_thms)
  then show ?thesis by (simp only: insertIdx_run claimed_insertIdx_def)
qed

lemma save_action_history:
  assumes "save_action now idx ta c = Some c'"
  shows "history c' =
     splice_insert
       (insertIdx (true_anchor idx (history c ! idx)) ((history c)[idx := (history c ! idx)\<lparr>editing := False\<rparr>]))
       (newUser now (case ta of Some v \<Rightarrow> v | None \<Rightarrow> content (history c ! idx))
          (true_anchor idx (history c ! idx))
          (active (bump_branch (true_anchor idx (history c ! idx)) (branch c))))
       ((history c)[idx := (history c ! idx)\<lparr>editing := False\<rparr>])"
  using assms by (auto simp: save_action_def Let_def split: if_splits)

lemma bump_branch_anchor: "anchor (bump_branch a b) = a"
  by (auto simp: bump_branch_def Let_def split: option.splits)

lemma splice_insert_nth: "i \<le> length xs \<Longrightarrow> splice_insert i x xs ! i = x"
  by (simp add: splice_insert_def nth_append)

text \<open>
  Claim C8, as amended. On saving an edit of a user message the true anchor is the entry's
  stored \<open>branch_of\<close> when it has one, otherwise its own index; the new user message is
  inserted immediately after the last entry tagged with the anchor among the entries
  that follow the anchor up to the first entry without a numeric \<open>branch_of\<close> (or
  immediately after the anchor if there is none), tagged with the anchor and the newly
  active version. Where no entry tagged with the anchor lies behind that first untagged
  entry, this is the place the claim names.
\<close>

theorem save_inserts_after_cluster:
  assumes "save_action now idx ta c = Some c'"
  shows "let item = history c ! idx;
             a = (case branch_of item of Some k \<Rightarrow> k | None \<Rightarrow> idx);
             h1 = (history c)[idx := item\<lparr>editing := False\<rparr>];
             ins = claimed_insertIdx a (take (run_end a h1) h1);
             newText = (case ta of Some v \<Rightarrow> v | None \<Rightarrow> content item)
         in \<exists>br m. branch c' = Some br \<and> anchor br = a
              \<and> m = newUser now newText a (active br)
              \<and> role m = User \<and> content m = newText
              \<and> branch_of m = Some a \<and> branch_version m = Some (active br)
              \<and> history c' = take ins h1 @ [m] @ drop ins h1
              \<and> (ins \<le> length h1 \<longrightarrow> history c' ! ins = m)
              \<and> ((\<forall>j. run_end a h1 \<le> j \<and> j < length h1 \<longrightarrow> branch_of (h1 ! j) \<noteq> Some a)
                    \<longrightarrow> ins = claimed_insertIdx a h1)"
proof -
  let ?item = "history c ! idx"
  let ?a = "true_anchor idx ?item"
  let ?h1 = "(history c)[idx := ?item\<lparr>editing := False\<rparr>]"
  let ?ins = "insertIdx ?a ?h1"
  let ?br = "bump_branch ?a (branch c)"
  let ?m = "newUser now (case ta of Some v \<Rightarrow> v | None \<Rightarrow> content ?item) ?a (active ?br)"
  have b: "branch c' = Some ?br" by (rule save_action_branch [OF assms])
  have h: "history c' = take ?ins ?h1 @ [?m] @ drop ?ins ?h1"
    using save_action_history [OF assms] by (simp only: splice_insert_def)
  have at: "?ins \<le> length ?h1 \<longrightarrow> history c' ! ?ins = ?m"
    using save_action_history [OF assms] splice_insert_nth [of ?ins ?h1 ?m] by simp
  have cl: "(\<forall>j. run_end ?a ?h1 \<le> j \<and> j < length ?h1 \<longrightarrow> branch_of (?h1 ! j) \<noteq> Some ?a)
              \<longrightarrow> ?ins = claimed_insertIdx ?a ?h1"
    using insertIdx_claimed [of ?a ?h1] by blast
  have m: "role ?m = User" "branch_of ?m = Some ?a" "branch_version ?m = Some (active ?br)"
    "content ?m = (case ta of Some v \<Rightarrow> v | None \<Rightarrow> content ?item)"
    by (simp_all add: newUser_def)
  have ta: "?a = (case branch_of ?item of Some k \<Rightarrow> k | None \<Rightarrow> idx)"
    by (simp add: true_anchor_def)
  have run: "?ins = claimed_insertIdx ?a (take (run_end ?a ?h1) ?h1)"
    by (rule insertIdx_run)
  show ?thesis
    unfolding Let_def ta [symmetric] run [symmetric]
    using b h at cl m bump_branch_anchor [of ?a "branch c"] by blast
qed

theorem save_inserts_after_cluster_witness:
  "save_action 7 2 (Some (js ''What is 3+3?'')) sample_chat \<noteq> None
   \<and> branch (the (save_action 7 2 (Some (js ''What is 3+3?'')) sample_chat))
       = Some \<lparr>anchor = 2, active = 2, total_b = 2\<rparr>
   \<and> history (the (save_action 7 2 (Some (js ''What is 3+3?'')) sample_chat)) ! 3
       = newUser 7 (js ''What is 3+3?'') 2 2
   \<and> claimed_insertIdx 2 (history sample_chat) = 3"
proof -
  have c: "claimed_insertIdx 2 (history sample_chat) = 3"
    by (simp add: claimed_insertIdx_def last_tagged_def sample_chat_def fresh_message_def)
  show ?thesis
    using save_inserts_after_cluster [OF sample_save] c
    by (simp add: sample_save)
qed

text \<open>
  Claim C8 as stated fails on \<open>forked_chat\<close>: saving the version at index 7 (anchor 4)
  inserts the new message at index 5, in front of the untagged entry there, although
  the last entry tagged with 4 is at index 8.
\<close>

theorem save_insert_counterexample:
  "save_action 9 7 None forked_chat \<noteq> None
   \<and> history (the (save_action 9 7 None forked_chat))
       = splice_insert 5 (newUser 9 (js ''e2'') 4 2)
           ((history forked_chat)[7 := (history forked_chat ! 7)\<lparr>editing := False\<rparr>])
   \<and> last_tagged 4 ((history forked_chat)[7 := (history forked_chat ! 7)\<lparr>editing := False\<rparr>]) = Some 8
   \<and> claimed_insertIdx 4 ((history forked_chat)[7 := (history forked_chat ! 7)\<lparr>editing := False\<rparr>]) = 9
   \<and> history (the (save_action 9 7 None forked_chat))
       \<noteq> splice_insert 9 (newUser 9 (js ''e2'') 4 2)
           ((history forked_chat)[7 := (history forked_chat ! 7)\<lparr>editing := False\<rparr>])"
  by (simp add: forked_chat_def save_eval claimed_insertIdx_def last_tagged_def)

subsection \<open>The visible view\<close>







lemma bubble_idx [simp]:
  "b_idx (bubble_before j m) = j" "b_idx (bubble_anchor b k v m) = k" "b_idx (bubble_plain br j m) = j"
  by (simp_all add: bubble_before_def bubble_anchor_def bubble_plain_def)

lemma bubble_isAnchor [simp]:
  "b_isAnchor (bubble_before j m) = False" "b_isAnchor (bubble_anchor b k v m) = True"
  "b_isAnchor (bubble_plain (Some b) j m) = (j = anchor b)"
  by (simp_all add: bubble_before_def bubble_anchor_def bubble_plain_def)







subsection \<open>The current chat in the store\<close>

lemma find_cid: "find (\<lambda>c. cid c = k) xs = Some c \<Longrightarrow> cid c = k"
  by (auto simp: find_Some_iff)

lemma find_update_first:
  "find P xs = Some x \<Longrightarrow> P y \<Longrightarrow>
     \<exists>i<length xs. findIndex_from (\<lambda>x _. P x) j xs = Some (j + i) \<and> find P (xs[i := y]) = Some y"
proof (induction xs arbitrary: j)
  case Nil
  then show ?case by simp
next
  case (Cons z zs)
  show ?case
  proof (cases "P z")
    case True
    with Cons.prems(2) show ?thesis by (intro exI [of _ 0]) simp
  next
    case False
    with Cons.prems have "find P zs = Some x" by simp
    from Cons.IH [OF this Cons.prems(2), of "Suc j"] obtain i where
      "i < length zs" "findIndex_from (\<lambda>x _. P x) (Suc j) zs = Some (Suc j + i)"
      "find P (zs[i := y]) = Some y" by blast
    with False show ?thesis by (intro exI [of _ "Suc i"]) simp
  qed
qed

lemma updateChat_current:
  assumes "find (\<lambda>x. cid x = k) (loadAll st) = Some c0" and "cid c' = k"
  shows "find (\<lambda>x. cid x = k) (loadAll (updateChat c' st)) = Some c'"
proof -
  from find_update_first [OF assms(1), of c' 0] assms(2) obtain i where
    "findIndex_from (\<lambda>x _. cid x = k) 0 (loadAll st) = Some i"
    "find (\<lambda>x. cid x = k) ((loadAll st)[i := c']) = Some c'" by auto
  then show ?thesis using assms(2)
    by (simp add: updateChat_def findIndex_def saveAll_def loadAll_def)
qed

lemma getChat_found:
  assumes "find (\<lambda>x. cid x = k) (loadAll st) = Some c0"
  shows "\<exists>c st'. getChat (Some k) st = (Some c, st')
           \<and> find (\<lambda>x. cid x = k) (loadAll st') = Some c
           \<and> history c = history c0 \<and> cid c = k \<and> branch c = branch c0"
proof (cases "stats c0 = None")
  case True
  let ?c = "c0\<lparr>stats := Some DEFAULT_STATS\<rparr>"
  have k: "cid ?c = k" using find_cid [OF assms] by simp
  have "getChat (Some k) st = (Some ?c, updateChat ?c st)"
    using assms True by (simp add: getChat_def Let_def)
  with updateChat_current [OF assms k] k show ?thesis by simp
next
  case False
  with assms have "getChat (Some k) st = (Some c0, st)" by (auto simp: getChat_def)
  with assms find_cid [OF assms] show ?thesis by simp
qed

text \<open>A click on the version pager stores the cycled branch state of the current chat.\<close>

lemma pager_click_cycles:
  assumes "find (\<lambda>x. cid x = k) (loadAll st) = Some c0" and "branch c0 = Some br"
  shows "map_option branch (find (\<lambda>x. cid x = k) (loadAll (pager_click (Some k) st)))
           = Some (Some (cycle br))"
proof -
  from getChat_found [OF assms(1)] obtain c st' where
    c: "getChat (Some k) st = (Some c, st')" "find (\<lambda>x. cid x = k) (loadAll st') = Some c"
    "cid c = k" "branch c = branch c0"
    by blast
  have "find (\<lambda>x. cid x = k) (loadAll (updateChat (c\<lparr>branch := Some (cycle br)\<rparr>) st'))
          = Some (c\<lparr>branch := Some (cycle br)\<rparr>)"
    by (rule updateChat_current [OF c(2)]) (simp add: c(3))
  then show ?thesis using c assms(2) by (simp add: pager_click_def)
qed

lemma getChat_missing:
  "getChat None st = (None, st)"
  "find (\<lambda>x. cid x = k) (loadAll st) = None \<Longrightarrow> getChat (Some k) st = (None, st)"
  by (simp_all add: getChat_def)

lemma getChat_current:
  "current_chat s = Some c0 \<Longrightarrow>
     \<exists>c st'. getChat (currentId s) (store s) = (Some c, st')
        \<and> current_chat (s\<lparr>store := st'\<rparr>) = Some c \<and> history c = history c0 \<and> Some (cid c) = currentId s"
proof -
  assume a: "current_chat s = Some c0"
  then obtain k where k: "currentId s = Some k" "find (\<lambda>x. cid x = k) (loadAll (store s)) = Some c0"
    by (auto simp: current_chat_def split: option.splits)
  from getChat_found [OF k(2)] k(1) show ?thesis
    by (auto simp: current_chat_def)
qed

lemma getChat_none:
  "current_chat s = None \<Longrightarrow> getChat (currentId s) (store s) = (None, store s)"
  by (auto simp: current_chat_def getChat_missing split: option.splits)

lemma createChat_found:
  "createChat t mdl nm st = (c, st') \<Longrightarrow>
     find (\<lambda>x. cid x = cid c) (loadAll st') = Some c \<and> history c = []"
  by (auto simp: createChat_def Let_def saveAll_def loadAll_def)

text \<open>The two pushes of \<open>sendSSE\<close> on a chat that is in the store.\<close>

lemma pushes:
  assumes "find (\<lambda>x. cid x = cid c) (loadAll st1) = Some c"
    and "pushUserMessage tu q c st1 = (uIdx, c1, st2)"
    and "pushAiMessage ta [] c1 st2 = (aIdx, c2, st3)"
  shows "find (\<lambda>x. cid x = cid c) (loadAll st3) = Some c2
       \<and> history c2 = history c @ [fresh_message User q tu, fresh_message Assistant [] ta]
       \<and> uIdx = length (history c) \<and> aIdx = Suc (length (history c)) \<and> cid c2 = cid c"
proof -
  from assms(2) have c1: "c1 = c\<lparr>history := history c @ [fresh_message User q tu]\<rparr>"
    "st2 = updateChat c1 st1" "uIdx = length (history c)"
    by (auto simp: pushUserMessage_def Let_def)
  from assms(3) have c2: "c2 = c1\<lparr>history := history c1 @ [fresh_message Assistant [] ta]\<rparr>"
    "st3 = updateChat c2 st2" "aIdx = length (history c1)"
    by (auto simp: pushAiMessage_def Let_def)
  have f2: "find (\<lambda>x. cid x = cid c) (loadAll st2) = Some c1"
    unfolding c1(2) by (rule updateChat_current [OF assms(1)]) (simp add: c1(1))
  have f3: "find (\<lambda>x. cid x = cid c) (loadAll st3) = Some c2"
    unfolding c2(2) by (rule updateChat_current [OF f2]) (simp add: c2(1) c1(1))
  from f3 c1 c2 show ?thesis by simp
qed

subsection \<open>A streamed send and its events\<close>

lemma sendSSE_started:
  assumes "\<not> GAIA_BUSY s"
  shows "\<exists>c. current_chat (sendSSE now mdl tgt q s) = Some c
     \<and> history c = (case current_chat s of None \<Rightarrow> [] | Some c0 \<Rightarrow> history c0)
                     @ [fresh_message User q (now 1), fresh_message Assistant [] (now 2)]
     \<and> sessions (sendSSE now mdl tgt q s)
         = sessions s @ [\<lparr>es_open = True, closed = False, fullText = [],
                           textTarget = (if tgt then Some THINKING else None),
                           aiIdx = Suc (length (case current_chat s of None \<Rightarrow> [] | Some c0 \<Rightarrow> history c0)),
                           userIdx = length (case current_chat s of None \<Rightarrow> [] | Some c0 \<Rightarrow> history c0)\<rparr>]
     \<and> GAIA_BUSY (sendSSE now mdl tgt q s)
     \<and> currentSSE (sendSSE now mdl tgt q s) = Some (length (sessions s))"
proof -
  let ?h0 = "case current_chat s of None \<Rightarrow> [] | Some c0 \<Rightarrow> history c0"
  obtain c st1 where
    g: "(case fst (getChat (currentId s) (store s)) of
           Some c \<Rightarrow> (c, snd (getChat (currentId s) (store s)))
         | None \<Rightarrow> createChat (now 0) mdl (js ''New chat'') (snd (getChat (currentId s) (store s))))
        = (c, st1)"
    by (cases "case fst (getChat (currentId s) (store s)) of
           Some c \<Rightarrow> (c, snd (getChat (currentId s) (store s)))
         | None \<Rightarrow> createChat (now 0) mdl (js ''New chat'') (snd (getChat (currentId s) (store s)))")
  have f: "find (\<lambda>x. cid x = cid c) (loadAll st1) = Some c \<and> history c = ?h0"
  proof (cases "current_chat s")
    case None
    from getChat_none [OF this] g have "createChat (now 0) mdl (js ''New chat'') (store s) = (c, st1)"
      by simp
    from createChat_found [OF this] None show ?thesis by simp
  next
    case (Some c0)
    from getChat_current [OF this] obtain c' st' where
      c': "getChat (currentId s) (store s) = (Some c', st')"
      "current_chat (s\<lparr>store := st'\<rparr>) = Some c'" "history c' = history c0" "Some (cid c') = currentId s"
      by blast
    from c'(1) g have "c = c'" "st1 = st'" by simp_all
    with c' Some show ?thesis by (auto simp: current_chat_def split: option.splits)
  qed
  obtain uIdx c1 st2 where pu: "pushUserMessage (now 1) q c st1 = (uIdx, c1, st2)"
    by (cases "pushUserMessage (now 1) q c st1")
  obtain aIdx c2 st3 where pa: "pushAiMessage (now 2) [] c1 st2 = (aIdx, c2, st3)"
    by (cases "pushAiMessage (now 2) [] c1 st2")
  from pushes [OF f [THEN conjunct1] pu pa] f
  have p: "find (\<lambda>x. cid x = cid c) (loadAll st3) = Some c2"
    "history c2 = ?h0 @ [fresh_message User q (now 1), fresh_message Assistant [] (now 2)]"
    "uIdx = length ?h0" "aIdx = Suc (length ?h0)"
    by simp_all
  have "sendSSE now mdl tgt q s =
      \<lparr>store = st3, currentId = Some (cid c), GAIA_BUSY = True,
       currentSSE = Some (length (sessions s)),
       sessions = sessions s @ [\<lparr>es_open = True, closed = False, fullText = [],
                   textTarget = (if tgt then Some THINKING else None),
                   aiIdx = aIdx, userIdx = uIdx\<rparr>]\<rparr>"
    using assms g pu pa by (simp add: sendSSE_def split_def)
  with p show ?thesis by (simp add: current_chat_def)
qed

lemma sendSSE_streaming:
  assumes "\<not> GAIA_BUSY s"
  shows "streaming (length (sessions s))
           (Suc (length (case current_chat s of None \<Rightarrow> [] | Some c0 \<Rightarrow> history c0)))
           tgt [] (sendSSE now mdl tgt q s)"
  using sendSSE_started [OF assms, of now mdl tgt q]
  by (auto simp: streaming_def)

lemma set_session_simps [simp]:
  "sessions (set_session h se s) = (sessions s)[h := se]"
  "store (set_session h se s) = store s"
  "currentId (set_session h se s) = currentId s"
  "GAIA_BUSY (set_session h se s) = GAIA_BUSY s"
  "currentSSE (set_session h se s) = currentSSE s"
  by (simp_all add: set_session_def)

lemma current_chat_set_session [simp]:
  "current_chat (set_session h se s) = current_chat s"
  by (simp add: current_chat_def split: option.splits)

lemma current_chat_update:
  assumes "current_chat (s\<lparr>store := st1\<rparr>) = Some c" and "cid c' = cid c"
  shows "current_chat (s\<lparr>store := updateChat c' st1\<rparr>) = Some c'"
proof -
  from assms(1) obtain k where k: "currentId s = Some k" "find (\<lambda>x. cid x = k) (loadAll st1) = Some c"
    by (auto simp: current_chat_def split: option.splits)
  from find_cid [OF k(2)] assms(2) have "cid c' = k" by simp
  from updateChat_current [OF k(2) this] k(1) show ?thesis by (simp add: current_chat_def)
qed

lemma listener_Start:
  assumes "streaming h a tgt buf s"
  shows "streaming h a tgt buf (listener t h (Start p) s)"
proof (cases p)
  case None
  with assms show ?thesis by simp
next
  case (Some modelName)
  from assms obtain c0 where c0: "current_chat s = Some c0" "a < length (history c0)"
    by (auto simp: streaming_def split: option.splits)
  from getChat_current [OF c0(1)] obtain c st' where
    c: "getChat (currentId s) (store s) = (Some c, st')"
    "current_chat (s\<lparr>store := st'\<rparr>) = Some c" "history c = history c0"
    by blast
  let ?m = "history c ! a"
  let ?mt = "case meta ?m of None \<Rightarrow> \<lparr>meta_model = Some modelName, meta_usage = None\<rparr>
             | Some x \<Rightarrow> x\<lparr>meta_model := Some modelName\<rparr>"
  let ?c' = "c\<lparr>history := (history c)[a := ?m\<lparr>meta := Some ?mt\<rparr>]\<rparr>"
  have ai: "aiIdx (sessions s ! h) = a" using assms by (simp add: streaming_def)
  have l: "listener t h (Start p) s = s\<lparr>store := updateChat ?c' st'\<rparr>"
    using Some c c0(2) ai by (simp add: Let_def)
  have "current_chat (s\<lparr>store := updateChat ?c' st'\<rparr>) = Some ?c'"
    by (rule current_chat_update [OF c(2)]) simp
  with assms c0(2) c(3) show ?thesis
    unfolding l by (simp add: streaming_def)
qed

lemma listener_Delta:
  assumes "streaming h a tgt buf s"
  shows "streaming h a tgt (buf @ delta_text (t, Delta p)) (listener t h (Delta p) s)"
proof (cases "p = None \<or> p = Some []")
  case True
  with assms show ?thesis by auto
next
  case False
  then obtain x where x: "p = Some x" "x \<noteq> []" by auto
  with assms show ?thesis
    by (auto simp: streaming_def Let_def)
qed

lemma deliver_ongoing:
  assumes "streaming h a tgt buf s" and "ongoing e"
  shows "streaming h a tgt (buf @ delta_text e) (deliver h e s)"
proof -
  obtain t ev where e: "e = (t, ev)" by (cases e)
  have o: "h < length (sessions s) \<and> es_open (sessions s ! h)"
    using assms(1) by (simp add: streaming_def)
  show ?thesis
  proof (cases ev)
    case (Start p)
    with listener_Start [OF assms(1), of t p] o e show ?thesis by (simp add: deliver_def)
  next
    case (Delta p)
    with listener_Delta [OF assms(1), of t p] o e show ?thesis by (simp add: deliver_def)
  qed (use assms(2) e in simp_all)
qed

lemma deliver_all_ongoing:
  "streaming h a tgt buf s \<Longrightarrow> \<forall>e \<in> set evs. ongoing e \<Longrightarrow>
     streaming h a tgt (buf @ concat (map delta_text evs)) (deliver_all h evs s)"
proof (induction evs arbitrary: buf s)
  case Nil
  then show ?case by (simp add: deliver_all_def)
next
  case (Cons e evs)
  from Cons.prems have "streaming h a tgt (buf @ delta_text e) (deliver h e s)"
    by (simp add: deliver_ongoing)
  from Cons.IH [OF this] Cons.prems(2) show ?case by (simp add: deliver_all_def)
qed

lemma current_chat_cong:
  "store s' = store s \<Longrightarrow> currentId s' = currentId s \<Longrightarrow> current_chat s' = current_chat s"
  by (simp add: current_chat_def split: option.splits)

lemma finish_closed: "closed (sessions s ! h) \<Longrightarrow> finish ok t h s = s"
  by (simp add: finish_def)

lemma finish_persists:
  assumes "h < length (sessions s)" and "\<not> closed (sessions s ! h)"
    and "current_chat s = Some c0" and "aiIdx (sessions s ! h) < length (history c0)"
  shows "persisted (finish ok t h s) (aiIdx (sessions s ! h)) = Some (finalPersist ok (sessions s ! h))
       \<and> sessions (finish ok t h s) = (sessions s)[h := (sessions s ! h)\<lparr>closed := True, es_open := False\<rparr>]
       \<and> \<not> GAIA_BUSY (finish ok t h s) \<and> currentSSE (finish ok t h s) = None"
proof -
  let ?se = "sessions s ! h"
  let ?a = "aiIdx ?se"
  from getChat_current [OF assms(3)] obtain c st' where
    c: "getChat (currentId s) (store s) = (Some c, st')"
    "current_chat (s\<lparr>store := st'\<rparr>) = Some c" "history c = history c0"
    by blast
  let ?c' = "c\<lparr>history := (history c)[?a := (history c ! ?a)\<lparr>content := finalPersist ok ?se, time := Some t\<rparr>]\<rparr>"
  let ?s1 = "s\<lparr>sessions := (sessions s)[h := ?se\<lparr>closed := True, es_open := False\<rparr>],
               currentSSE := None, GAIA_BUSY := False\<rparr>"
  have f: "finish ok t h s = ?s1\<lparr>store := updateChat ?c' st'\<rparr>"
    using assms(2,4) c(1,3) by (simp add: finish_def Let_def)
  have "current_chat (s\<lparr>store := updateChat ?c' st'\<rparr>) = Some ?c'"
    by (rule current_chat_update [OF c(2)]) simp
  moreover have "current_chat (?s1\<lparr>store := updateChat ?c' st'\<rparr>)
                 = current_chat (s\<lparr>store := updateChat ?c' st'\<rparr>)"
    by (rule current_chat_cong) simp_all
  ultimately have cur: "current_chat (?s1\<lparr>store := updateChat ?c' st'\<rparr>) = Some ?c'"
    by simp
  show ?thesis
    unfolding f using cur assms(4) c(3) by (simp add: persisted_def)
qed

lemma in_set_dropWhile: "x \<in> set xs \<Longrightarrow> \<not> P x \<Longrightarrow> x \<in> set (dropWhile P xs)"
  by (induction xs) auto

lemma trim_nonempty: "x \<in> set s \<Longrightarrow> \<not> is_ws x \<Longrightarrow> trim s \<noteq> []"
proof -
  assume x: "x \<in> set s" "\<not> is_ws x"
  then have "x \<in> set (rev (dropWhile is_ws s))" by (simp add: in_set_dropWhile)
  from this x(2) have "x \<in> set (dropWhile is_ws (rev (dropWhile is_ws s)))" by (rule in_set_dropWhile)
  moreover have "\<And>L. x \<in> set L \<Longrightarrow> L \<noteq> []" by auto
  ultimately have "dropWhile is_ws (rev (dropWhile is_ws s)) \<noteq> []" by blast
  then show ?thesis by (simp only: trim_def rev_is_Nil_conv not_False_eq_True)
qed

lemma trim_warning: "trim (9888 # 65039 # 32 # m) \<noteq> []"
  by (rule trim_nonempty [of 9888]) (simp_all add: is_ws_def)

lemma trim_STREAM_ERROR: "trim STREAM_ERROR = STREAM_ERROR"
  by (simp add: STREAM_ERROR_def trim_def is_ws_def js_def)

lemma STREAM_ERROR_nonempty: "STREAM_ERROR \<noteq> []"
  by (simp add: STREAM_ERROR_def)

lemma sendSSE_aiIdx:
  assumes "\<not> GAIA_BUSY s"
  shows "aiIdx (sessions (sendSSE now mdl tgt q s) ! length (sessions s))
           = Suc (length (case current_chat s of None \<Rightarrow> [] | Some c0 \<Rightarrow> history c0))"
  using sendSSE_streaming [OF assms, of tgt now mdl q] by (simp add: streaming_def)

text \<open>
  Claim C4. For a streamed send that started and every run of \<open>start\<close> and \<open>delta\<close> events
  its session consumes, the buffer is the concatenation of the fragments in arrival
  order, and on the \<open>done\<close> event the content stored for the assistant placeholder is the
  trimmed buffer. In particular the run \<open>delta("Hel")\<close>, \<open>delta("lo")\<close>, \<open>done\<close> stores
  exactly \<open>"Hello"\<close>.
\<close>

theorem stream_done_persists_buffer:
  assumes "\<not> GAIA_BUSY s" and "\<forall>e \<in> set evs. ongoing e"
  shows "let s1 = sendSSE now mdl tgt q s;
             h = length (sessions s);
             s2 = deliver_all h evs s1
         in fullText (sessions s2 ! h) = concat (map delta_text evs)
          \<and> persisted (deliver h (t, Done) s2) (aiIdx (sessions s1 ! h))
              = Some (trim (concat (map delta_text evs)))"
proof -
  let ?s1 = "sendSSE now mdl tgt q s" and ?h = "length (sessions s)"
  let ?a = "Suc (length (case current_chat s of None \<Rightarrow> [] | Some c0 \<Rightarrow> history c0))"
  let ?buf = "concat (map delta_text evs)"
  let ?s2 = "deliver_all ?h evs ?s1"
  have a: "aiIdx (sessions ?s1 ! ?h) = ?a" by (rule sendSSE_aiIdx [OF assms(1)])
  have "streaming ?h ?a tgt ([] @ ?buf) ?s2"
    by (rule deliver_all_ongoing [OF sendSSE_streaming [OF assms(1)] assms(2)])
  then have st: "streaming ?h ?a tgt ?buf ?s2" by simp
  then obtain c0 where c0: "current_chat ?s2 = Some c0" "?a < length (history c0)"
    by (auto simp: streaming_def split: option.splits)
  from st have se: "?h < length (sessions ?s2)" "es_open (sessions ?s2 ! ?h)"
    "\<not> closed (sessions ?s2 ! ?h)" "aiIdx (sessions ?s2 ! ?h) = ?a" "fullText (sessions ?s2 ! ?h) = ?buf"
    by (simp_all add: streaming_def)
  have "deliver ?h (t, Done) ?s2 = finish True t ?h ?s2"
    using se(1,2) by (simp add: deliver_def)
  moreover have "persisted (finish True t ?h ?s2) ?a = Some (finalPersist True (sessions ?s2 ! ?h))"
    using finish_persists [OF se(1) se(3) c0(1), of True t] c0(2) se(4) by simp
  moreover have "finalPersist True (sessions ?s2 ! ?h) = trim ?buf"
    by (simp add: finalPersist_def se(5))
  ultimately show ?thesis using se(5) a by (simp add: Let_def)
qed

subsection \<open>Error events\<close>

lemma streaming_set_session:
  assumes "streaming h a tgt buf s" and "aiIdx se' = a" and "\<not> closed se'"
  shows "h < length (sessions (set_session h se' s))"
    and "sessions (set_session h se' s) ! h = se'"
    and "\<exists>c0. current_chat (set_session h se' s) = Some c0 \<and> a < length (history c0)"
  using assms by (auto simp: streaming_def split: option.splits)

lemma finalPersist_error:
  assumes "fullText se = buf"
    and "textTarget se = (if tgt then Some x else None)"
    and "tgt \<longrightarrow> (x \<noteq> [] \<and> trim x = y)"
  shows "finalPersist False se
           = (if trim buf \<noteq> [] then trim buf else if tgt \<and> y \<noteq> [] then y else STREAM_ERROR)"
  using assms by (auto simp: finalPersist_def renderedErr_def)

lemma terminal_error:
  assumes st: "streaming h a tgt buf s" and ev: "ev = GaiaError p \<or> ev = Error"
  shows "persisted (deliver h (t, ev) s) a
           = Some (if trim buf \<noteq> [] then trim buf
                   else if tgt \<and> ev = GaiaError p then trim ([9888, 65039, 32] @ gaia_msg p)
                   else STREAM_ERROR)
       \<and> closed (sessions (deliver h (t, ev) s) ! h) \<and> \<not> es_open (sessions (deliver h (t, ev) s) ! h)
       \<and> h < length (sessions (deliver h (t, ev) s))"
proof -
  let ?se = "sessions s ! h"
  from st have se: "h < length (sessions s)" "es_open ?se" "\<not> closed ?se" "aiIdx ?se = a"
    "fullText ?se = buf" "textTarget ?se = (if tgt then Some (if buf = [] then THINKING else buf) else None)"
    by (simp_all add: streaming_def)
  define se' where "se' =
    (case ev of
       GaiaError p \<Rightarrow> (case textTarget ?se of None \<Rightarrow> ?se
                        | Some _ \<Rightarrow> ?se\<lparr>textTarget := Some ([9888, 65039, 32] @ gaia_msg p)\<rparr>)
     | _ \<Rightarrow> (if textTarget ?se \<noteq> None \<and> fullText ?se = []
             then ?se\<lparr>textTarget := Some STREAM_ERROR\<rparr> else ?se))"
  have d: "deliver h (t, ev) s = finish False t h (set_session h se' s)"
    using ev se(1,2) by (auto simp: deliver_def se'_def Let_def)
  have a': "aiIdx se' = a" "\<not> closed se'" "fullText se' = buf"
    using ev se by (auto simp: se'_def split: option.splits)
  from streaming_set_session [OF st a'(1,2)] obtain c0 where
    s': "h < length (sessions (set_session h se' s))" "sessions (set_session h se' s) ! h = se'"
    "current_chat (set_session h se' s) = Some c0" "a < length (history c0)"
    by blast
  have fin: "persisted (finish False t h (set_session h se' s)) a = Some (finalPersist False se')
       \<and> sessions (finish False t h (set_session h se' s))
           = (sessions (set_session h se' s))[h := se'\<lparr>closed := True, es_open := False\<rparr>]"
    using finish_persists [OF s'(1) _ s'(3), of False t] s'(2,4) a'(1,2) by simp
  have fp: "finalPersist False se'
      = (if trim buf \<noteq> [] then trim buf
         else if tgt \<and> ev = GaiaError p then trim ([9888, 65039, 32] @ gaia_msg p)
         else STREAM_ERROR)"
  proof (cases "ev = GaiaError p")
    case True
    then have tt: "textTarget se' = (if tgt then Some ([9888, 65039, 32] @ gaia_msg p) else None)"
      using se(6) by (simp add: se'_def)
    show ?thesis
      using finalPersist_error [OF a'(3) tt, of "trim ([9888, 65039, 32] @ gaia_msg p)"] True
      by (simp add: trim_warning)
  next
    case False
    with ev have e: "ev = Error" by simp
    show ?thesis
    proof (cases "buf = []")
      case True
      then have tt: "textTarget se' = (if tgt then Some STREAM_ERROR else None)"
        using se(5,6) e by (simp add: se'_def)
      show ?thesis
        using finalPersist_error [OF a'(3) tt, of STREAM_ERROR] e
        by (simp add: trim_STREAM_ERROR STREAM_ERROR_nonempty)
    next
      case nb: False
      then have tt: "textTarget se' = (if tgt then Some buf else None)"
        using se(5,6) e by (simp add: se'_def)
      show ?thesis
        using finalPersist_error [OF a'(3) tt, of "trim buf"] e nb
        by simp
    qed
  qed
  show ?thesis unfolding d using fin fp s'(1) by simp
qed

lemma closed_session_inert:
  assumes "h < length (sessions s)" and "closed (sessions s ! h)" and "\<not> es_open (sessions s ! h)"
  shows "finish ok t h s = s" and "deliver h e s = s"
  using assms by (simp_all add: finish_closed deliver_def)

text \<open>
  Claim C9, as amended. On a \<open>gaia_error\<close> or a generic \<open>error\<close> event the session
  finalizes once: the stored content of the placeholder is the trimmed buffer if that
  is non-empty, otherwise a fallback error string (the warning text put into the bubble
  for a \<open>gaia_error\<close>, or the default stream-error text); it is never empty. Afterwards
  the session is closed: a further \<open>finish\<close> and any further event change nothing.
\<close>

theorem stream_error_persists:
  assumes "\<not> GAIA_BUSY s" and "\<forall>e \<in> set evs. ongoing e" and "ev = GaiaError p \<or> ev = Error"
  shows "let s1 = sendSSE now mdl tgt q s;
             h = length (sessions s);
             buf = concat (map delta_text evs);
             s3 = deliver h (t, ev) (deliver_all h evs s1)
         in persisted s3 (aiIdx (sessions s1 ! h))
              = Some (if trim buf \<noteq> [] then trim buf
                      else if tgt \<and> ev = GaiaError p then trim ([9888, 65039, 32] @ gaia_msg p)
                      else STREAM_ERROR)
          \<and> persisted s3 (aiIdx (sessions s1 ! h)) \<noteq> Some []
          \<and> closed (sessions s3 ! h) \<and> \<not> es_open (sessions s3 ! h)
          \<and> (\<forall>ok t'. finish ok t' h s3 = s3)
          \<and> (\<forall>e. deliver h e s3 = s3)"
proof -
  let ?s1 = "sendSSE now mdl tgt q s" and ?h = "length (sessions s)"
  let ?a = "Suc (length (case current_chat s of None \<Rightarrow> [] | Some c0 \<Rightarrow> history c0))"
  let ?buf = "concat (map delta_text evs)"
  let ?s2 = "deliver_all ?h evs ?s1"
  let ?s3 = "deliver ?h (t, ev) ?s2"
  let ?x = "if trim ?buf \<noteq> [] then trim ?buf
            else if tgt \<and> ev = GaiaError p then trim ([9888, 65039, 32] @ gaia_msg p)
            else STREAM_ERROR"
  have a: "aiIdx (sessions ?s1 ! ?h) = ?a" by (rule sendSSE_aiIdx [OF assms(1)])
  have "streaming ?h ?a tgt ([] @ ?buf) ?s2"
    by (rule deliver_all_ongoing [OF sendSSE_streaming [OF assms(1)] assms(2)])
  then have st: "streaming ?h ?a tgt ?buf ?s2" by simp
  note te = terminal_error [OF st assms(3), of t]
  have ne: "?x \<noteq> []" by (simp add: trim_warning STREAM_ERROR_nonempty)
  have inert: "\<forall>ok t'. finish ok t' ?h ?s3 = ?s3" "\<forall>e. deliver ?h e ?s3 = ?s3"
    using closed_session_inert [of ?h ?s3] te by simp_all
  from te ne inert show ?thesis unfolding Let_def a by simp
qed

subsection \<open>The busy flag\<close>

lemma deliver_ongoing_busy: "ongoing e \<Longrightarrow> GAIA_BUSY (deliver h e s) = GAIA_BUSY s"
proof -
  assume o: "ongoing e"
  obtain t ev where e: "e = (t, ev)" by (cases e)
  show ?thesis
  proof (cases ev)
    case (Start p)
    then show ?thesis using e
      by (auto simp: deliver_def Let_def split: option.splits prod.splits)
  next
    case (Delta p)
    then show ?thesis using e
      by (auto simp: deliver_def Let_def split: option.splits)
  qed (use o e in simp_all)
qed

lemma deliver_all_ongoing_busy:
  "\<forall>e \<in> set evs. ongoing e \<Longrightarrow> GAIA_BUSY (deliver_all h evs s) = GAIA_BUSY s"
  by (induction evs arbitrary: s) (simp_all add: deliver_all_def deliver_ongoing_busy)

text \<open>
  \<open>sendSSE\<close> does nothing while the busy flag is set, and the flag stays set while the
  \<open>start\<close> and \<open>delta\<close> events of a stream arrive. A \<open>sendSSE\<close> that starts leaves every
  earlier session as it is: it closes none.
\<close>

lemma sendSSE_blocked: "GAIA_BUSY s \<Longrightarrow> sendSSE now mdl tgt q s = s"
  by (simp add: sendSSE_def)

lemma sendSSE_blocked_while_streaming:
  assumes "\<not> GAIA_BUSY s" and "\<forall>e \<in> set evs. ongoing e"
  shows "sendSSE now' mdl' tgt' q' (deliver_all (length (sessions s)) evs (sendSSE now mdl tgt q s))
           = deliver_all (length (sessions s)) evs (sendSSE now mdl tgt q s)"
proof -
  have "GAIA_BUSY (sendSSE now mdl tgt q s)"
    using sendSSE_started [OF assms(1), of now mdl tgt q] by auto
  then have "GAIA_BUSY (deliver_all (length (sessions s)) evs (sendSSE now mdl tgt q s))"
    using assms(2) by (simp add: deliver_all_ongoing_busy)
  then show ?thesis by (rule sendSSE_blocked)
qed

lemma sendSSE_keeps_sessions:
  assumes "\<not> GAIA_BUSY s" and "h < length (sessions s)"
  shows "sessions (sendSSE now mdl tgt q s) ! h = sessions s ! h"
  using sendSSE_started [OF assms(1), of now mdl tgt q] assms(2)
  by (auto simp: nth_append)

subsection \<open>Runs on the freshly loaded page\<close>

lemmas stream_eval = sendSSE_def getChat_def createChat_def pushUserMessage_def pushAiMessage_def
  updateChat_def findIndex_def loadAll_def saveAll_def deliver_def deliver_all_def finish_def
  finalPersist_def renderedErr_def set_session_def stop_click_def setBusy_def persisted_def
  current_chat_def gaia_msg_def fresh_message_def Let_def

lemmas text_eval = trim_def is_ws_def js_def STREAM_ERROR_def THINKING_def

theorem stream_done_persists_buffer_witness:
  "\<not> GAIA_BUSY init_app
   \<and> fullText (sessions (deliver_all 0 [(6, Delta (Some (js ''Hel''))), (7, Delta (Some (js ''lo'')))]
                  (sendSSE (\<lambda>_. 5) (js ''grok'') True (js ''hi'') init_app)) ! 0) = js ''Hello''
   \<and> persisted (deliver 0 (8, Done)
                  (deliver_all 0 [(6, Delta (Some (js ''Hel''))), (7, Delta (Some (js ''lo'')))]
                     (sendSSE (\<lambda>_. 5) (js ''grok'') True (js ''hi'') init_app))) 1
       = Some (js ''Hello'')"
proof -
  let ?evs = "[(6, Delta (Some (js ''Hel''))), (7, Delta (Some (js ''lo'')))]"
  have nb: "\<not> GAIA_BUSY init_app" by (simp add: init_app_def)
  have on: "\<forall>e \<in> set ?evs. ongoing e" by simp
  have h0: "length (sessions init_app) = 0" by (simp add: init_app_def)
  have ai: "aiIdx (sessions (sendSSE (\<lambda>_. 5) (js ''grok'') True (js ''hi'') init_app) ! 0) = 1"
    by (simp add: init_app_def stream_eval)
  have buf: "concat (map delta_text ?evs) = js ''Hello''"
    by (simp add: js_def)
  have tr: "trim (js ''Hello'') = js ''Hello''"
    by (simp add: text_eval)
  note w = stream_done_persists_buffer [OF nb on, where now = "\<lambda>_. 5" and mdl = "js ''grok''"
      and tgt = True and q = "js ''hi''" and t = 8, unfolded Let_def h0 ai buf tr]
  from nb w show ?thesis by (simp only: simp_thms)
qed

theorem stream_error_persists_witness:
  "\<not> GAIA_BUSY init_app
   \<and> persisted (deliver 0 (8, GaiaError (Some (js ''overloaded'')))
                  (deliver_all 0 [(6, Delta (Some (js ''Hi '')))]
                     (sendSSE (\<lambda>_. 5) (js ''grok'') True (js ''hi'') init_app))) 1
       = Some (js ''Hi'')
   \<and> persisted (deliver 0 (8, Error)
                  (deliver_all 0 []
                     (sendSSE (\<lambda>_. 5) (js ''grok'') True (js ''hi'') init_app))) 1
       = Some STREAM_ERROR"
proof -
  have nb: "\<not> GAIA_BUSY init_app" by (simp add: init_app_def)
  have h0: "length (sessions init_app) = 0" by (simp add: init_app_def)
  have ai: "aiIdx (sessions (sendSSE (\<lambda>_. 5) (js ''grok'') True (js ''hi'') init_app) ! 0) = 1"
    by (simp add: init_app_def stream_eval)
  have on1: "\<forall>e \<in> set [(6, Delta (Some (js ''Hi '')))]. ongoing e" by simp
  have buf1: "concat (map delta_text [(6, Delta (Some (js ''Hi '')))]) = js ''Hi ''"
    by simp
  have tr1: "trim (js ''Hi '') = js ''Hi''" "js ''Hi'' \<noteq> []"
    by (simp_all add: text_eval)
  have e1: "GaiaError (Some (js ''overloaded'')) = GaiaError (Some (js ''overloaded'')) \<or>
            GaiaError (Some (js ''overloaded'')) = Error" by simp
  note w1 = stream_error_persists [OF nb on1 e1, where now = "\<lambda>_. 5" and mdl = "js ''grok''"
      and tgt = True and q = "js ''hi''" and t = 8, unfolded Let_def h0 ai buf1 tr1, THEN conjunct1]
  have on2: "\<forall>e \<in> set ([] :: (nat \<times> sse_event) list). ongoing e" by simp
  have buf2: "concat (map delta_text ([] :: (nat \<times> sse_event) list)) = []" by simp
  have tr2: "trim [] = []" by (simp add: trim_def)
  have e2: "Error = GaiaError None \<or> Error = Error" by simp
  note w2 = stream_error_persists [OF nb on2 e2, where now = "\<lambda>_. 5" and mdl = "js ''grok''"
      and tgt = True and q = "js ''hi''" and t = 8, unfolded Let_def h0 ai buf2 tr2, THEN conjunct1]
  from nb w1 w2 tr1(2) show ?thesis by simp
qed

text \<open>
  Claim C9 as stated fails for a buffer of white space: after \<open>delta(" ")\<close> and an
  \<open>error\<close> event the buffer is not empty, yet the fallback string is stored, not the
  buffer; and after \<open>delta("Hi ")\<close> the stored content is \<open>"Hi"\<close>, the buffer trimmed.
\<close>

theorem stream_error_counterexample:
  "fullText (sessions (deliver_all 0 [(6, Delta (Some (js '' '')))]
                  (sendSSE (\<lambda>_. 5) (js ''grok'') True (js ''hi'') init_app)) ! 0) = js '' ''
   \<and> js '' '' \<noteq> []
   \<and> persisted (deliver 0 (8, Error)
                  (deliver_all 0 [(6, Delta (Some (js '' '')))]
                     (sendSSE (\<lambda>_. 5) (js ''grok'') True (js ''hi'') init_app))) 1
       = Some STREAM_ERROR
   \<and> STREAM_ERROR \<noteq> js '' ''
   \<and> persisted (deliver 0 (8, Error)
                  (deliver_all 0 [(6, Delta (Some (js ''Hi '')))]
                     (sendSSE (\<lambda>_. 5) (js ''grok'') True (js ''hi'') init_app))) 1
       = Some (js ''Hi'')
   \<and> js ''Hi'' \<noteq> js ''Hi ''"
  by (simp add: init_app_def stream_eval text_eval)

text \<open>
  Claim C2 on the code: a streamed send, \<open>delta("Hel")\<close>, then a click on stop. The feed is
  closed and \<open>currentSSE\<close> cleared, but \<open>finish\<close> has not run: the \<open>closed\<close> flag is unset,
  the busy flag is still set, and the placeholder still has its empty content, neither
  \<open>"Hel"\<close> nor a sentinel. A \<open>done\<close> event no longer reaches the listener.
\<close>

theorem stop_skips_finalize:
  "fullText (sessions (stop_click (deliver 0 (6, Delta (Some (js ''Hel'')))
      (sendSSE (\<lambda>_. 5) (js ''grok'') True (js ''hi'') init_app))) ! 0) = js ''Hel''
   \<and> \<not> es_open (sessions (stop_click (deliver 0 (6, Delta (Some (js ''Hel'')))
      (sendSSE (\<lambda>_. 5) (js ''grok'') True (js ''hi'') init_app))) ! 0)
   \<and> \<not> closed (sessions (stop_click (deliver 0 (6, Delta (Some (js ''Hel'')))
      (sendSSE (\<lambda>_. 5) (js ''grok'') True (js ''hi'') init_app))) ! 0)
   \<and> currentSSE (stop_click (deliver 0 (6, Delta (Some (js ''Hel'')))
      (sendSSE (\<lambda>_. 5) (js ''grok'') True (js ''hi'') init_app))) = None
   \<and> GAIA_BUSY (stop_click (deliver 0 (6, Delta (Some (js ''Hel'')))
      (sendSSE (\<lambda>_. 5) (js ''grok'') True (js ''hi'') init_app)))
   \<and> persisted (stop_click (deliver 0 (6, Delta (Some (js ''Hel'')))
      (sendSSE (\<lambda>_. 5) (js ''grok'') True (js ''hi'') init_app))) 1 = Some []
   \<and> deliver 0 (7, Done) (stop_click (deliver 0 (6, Delta (Some (js ''Hel'')))
      (sendSSE (\<lambda>_. 5) (js ''grok'') True (js ''hi'') init_app)))
       = stop_click (deliver 0 (6, Delta (Some (js ''Hel'')))
      (sendSSE (\<lambda>_. 5) (js ''grok'') True (js ''hi'') init_app))"
  by (simp add: init_app_def stream_eval text_eval)

lemma stop_click_frame:
  "store (stop_click s) = store s \<and> GAIA_BUSY (stop_click s) = GAIA_BUSY s
   \<and> currentId (stop_click s) = currentId s"
  by (simp add: stop_click_def split: option.splits)

text \<open>
  Claim C6 on the code: a streamed send \<open>"a"\<close> is under way when the busy flag is
  cleared, as \<open>setBusy(false)\<close> in the \<open>finally\<close> of an edited send does that ran during
  the stream; then a second streamed send \<open>"b"\<close> starts. It opens its own session and
  overwrites \<open>currentSSE\<close>, and the first session stays open and is not finalized: its
  placeholder is still empty, and a fragment that arrives for it afterwards is stored
  as its final content on \<open>done\<close>.
\<close>

theorem second_send_keeps_first_session:
  "\<not> GAIA_BUSY (setBusy False (sendSSE (\<lambda>_. 5) (js ''grok'') True (js ''a'') init_app))
   \<and> es_open (sessions (setBusy False (sendSSE (\<lambda>_. 5) (js ''grok'') True (js ''a'') init_app)) ! 0)
   \<and> es_open (sessions (sendSSE (\<lambda>_. 9) (js ''grok'') True (js ''b'')
        (setBusy False (sendSSE (\<lambda>_. 5) (js ''grok'') True (js ''a'') init_app))) ! 0)
   \<and> \<not> closed (sessions (sendSSE (\<lambda>_. 9) (js ''grok'') True (js ''b'')
        (setBusy False (sendSSE (\<lambda>_. 5) (js ''grok'') True (js ''a'') init_app))) ! 0)
   \<and> es_open (sessions (sendSSE (\<lambda>_. 9) (js ''grok'') True (js ''b'')
        (setBusy False (sendSSE (\<lambda>_. 5) (js ''grok'') True (js ''a'') init_app))) ! 1)
   \<and> persisted (sendSSE (\<lambda>_. 9) (js ''grok'') True (js ''b'')
        (setBusy False (sendSSE (\<lambda>_. 5) (js ''grok'') True (js ''a'') init_app))) 1 = Some []
   \<and> persisted (deliver 0 (11, Done) (deliver 0 (10, Delta (Some (js ''late'')))
        (sendSSE (\<lambda>_. 9) (js ''grok'') True (js ''b'')
          (setBusy False (sendSSE (\<lambda>_. 5) (js ''grok'') True (js ''a'') init_app))))) 1
       = Some (js ''late'')"
  by (simp add: init_app_def stream_eval text_eval)

subsection \<open>Refreshing the model versions\<close>

text \<open>
  Claim C7 on the code: refresh 1 and refresh 2 are dispatched, the response of
  refresh 2 arrives and fills the dropdown, then refresh 1 fails (a rejected \<open>fetch\<close> or a
  body that is not JSON). The \<open>catch\<close> block does not compare the tag with the counter and
  resets the dropdown to \<open>latest\<close> alone. A stale response that parsed is dropped
  (\<open>stale_parsed_discarded\<close> below).
\<close>

theorem stale_failure_resets_dropdown:
  "versionSel
     (lmv_response (the (fst (lmv_request (snd (lmv_request
          \<lparr>mvReqSeq = 0, versionSel = Some [LATEST], modelSel = js ''grok''\<rparr>)))))
        (Parsed [js ''grok'' \<mapsto> [\<lparr>v_id = js ''grok-4'', v_label = Some (js ''Grok 4'')\<rparr>]])
        (snd (lmv_request (snd (lmv_request
          \<lparr>mvReqSeq = 0, versionSel = Some [LATEST], modelSel = js ''grok''\<rparr>)))))
     = Some [LATEST, \<lparr>o_value = js ''grok-4'', o_text = js ''Grok 4''\<rparr>]
   \<and> versionSel
       (lmv_response (the (fst (lmv_request
          \<lparr>mvReqSeq = 0, versionSel = Some [LATEST], modelSel = js ''grok''\<rparr>))) Failed
         (lmv_response (the (fst (lmv_request (snd (lmv_request
            \<lparr>mvReqSeq = 0, versionSel = Some [LATEST], modelSel = js ''grok''\<rparr>)))))
          (Parsed [js ''grok'' \<mapsto> [\<lparr>v_id = js ''grok-4'', v_label = Some (js ''Grok 4'')\<rparr>]])
          (snd (lmv_request (snd (lmv_request
            \<lparr>mvReqSeq = 0, versionSel = Some [LATEST], modelSel = js ''grok''\<rparr>))))))
     = Some [LATEST]"
  by (simp add: lmv_request_def lmv_response_def mk_option_def js_def)

lemma stale_parsed_discarded:
  "reqId \<noteq> mvReqSeq ui \<Longrightarrow> lmv_response reqId (Parsed d) ui = ui"
  by (simp add: lmv_response_def)

end
